theory Spec2Isabelle
  imports Main "HOL-Library.Word"
begin

section \<open>Values of the Python runtime\<close>

text \<open>
  A Python \<open>bytes\<close> object is a list of 8-bit words.  A Python \<open>str\<close> is a list of
  Unicode code points (numbers below \<open>0x110000\<close>, lone surrogates included), so
  \<open>len\<close> of a \<open>str\<close> counts code points, while \<open>len\<close> of a \<open>bytes\<close> counts bytes.
  Python's integers are unbounded.
\<close>

type_synonym byte = "8 word"
type_synonym codepoint = nat
type_synonym pystr = "codepoint list"

text \<open>The exceptions that the modelled code can raise.\<close>

datatype error =
    FTLPackError string
  | StructError
  | UnicodeEncodeError
  | UnicodeDecodeError
  | OSError

text \<open>A \<open>str\<close> literal whose characters are all below \<open>U+0100\<close>.\<close>

definition pystr_of :: "string \<Rightarrow> pystr" where
  "pystr_of s = map of_char s"

text \<open>A \<open>bytes\<close> literal.\<close>

definition bytes_of :: "string \<Rightarrow> byte list" where
  "bytes_of s = map of_char s"

subsection \<open>\<open>'{}'.format\<close> on an integer\<close>

fun str_nat :: "nat \<Rightarrow> string" where
  "str_nat n =
     (if n < 10 then [''0123456789'' ! n]
      else str_nat (n div 10) @ [''0123456789'' ! (n mod 10)])"

declare str_nat.simps [simp del]

definition str_int :: "int \<Rightarrow> string" where
  "str_int i = (if i < 0 then CHR ''-'' # str_nat (nat (- i)) else str_nat (nat i))"

subsection \<open>\<open>str.encode()\<close> and \<open>bytes.decode()\<close>: strict UTF-8\<close>

text \<open>
  \<open>encode_cp\<close> is the UTF-8 form of one code point.  A surrogate (\<open>U+D800\<close> to
  \<open>U+DFFF\<close>) makes \<open>str.encode()\<close> raise \<open>UnicodeEncodeError\<close>; the last branch
  covers numbers that are no code points at all, which no \<open>str\<close> contains.
\<close>

definition encode_cp :: "codepoint \<Rightarrow> byte list option" where
  "encode_cp c =
     (if c < 0x80 then Some [of_nat c]
      else if c < 0x800 then
        Some [of_nat (0xC0 + c div 64), of_nat (0x80 + c mod 64)]
      else if c < 0x10000 then
        (if 0xD800 \<le> c \<and> c \<le> 0xDFFF then None
         else Some [of_nat (0xE0 + c div 4096), of_nat (0x80 + c div 64 mod 64),
                    of_nat (0x80 + c mod 64)])
      else if c < 0x110000 then
        Some [of_nat (0xF0 + c div 262144), of_nat (0x80 + c div 4096 mod 64),
              of_nat (0x80 + c div 64 mod 64), of_nat (0x80 + c mod 64)]
      else None)"

fun encode :: "pystr \<Rightarrow> byte list option" where
  "encode [] = Some []"
| "encode (c # cs) =
     (case encode_cp c of
        None \<Rightarrow> None
      | Some bs \<Rightarrow> (case encode cs of None \<Rightarrow> None | Some r \<Rightarrow> Some (bs @ r)))"

text \<open>
  For a lead byte: the number of continuation bytes, the range allowed for the first of
  them (it excludes overlong forms, surrogates and values above \<open>U+10FFFF\<close>), and the
  payload bits of the lead byte.  \<open>None\<close> for a byte that cannot start a character.
\<close>

definition lead_info :: "nat \<Rightarrow> (nat \<times> nat \<times> nat \<times> nat) option" where
  "lead_info n =
     (if n < 0x80 then Some (0, 0x80, 0xBF, n)
      else if 0xC2 \<le> n \<and> n \<le> 0xDF then Some (1, 0x80, 0xBF, n - 0xC0)
      else if n = 0xE0 then Some (2, 0xA0, 0xBF, 0)
      else if n = 0xED then Some (2, 0x80, 0x9F, 13)
      else if 0xE1 \<le> n \<and> n \<le> 0xEF then Some (2, 0x80, 0xBF, n - 0xE0)
      else if n = 0xF0 then Some (3, 0x90, 0xBF, 0)
      else if n = 0xF4 then Some (3, 0x80, 0x8F, 4)
      else if 0xF1 \<le> n \<and> n \<le> 0xF3 then Some (3, 0x80, 0xBF, n - 0xF0)
      else None)"

definition cont_ok :: "nat \<Rightarrow> nat \<Rightarrow> byte list \<Rightarrow> bool" where
  "cont_ok lo hi cs =
     (case cs of
        [] \<Rightarrow> True
      | c # r \<Rightarrow> lo \<le> unat c \<and> unat c \<le> hi \<and> (\<forall>d \<in> set r. 0x80 \<le> unat d \<and> unat d \<le> 0xBF))"

function decode :: "byte list \<Rightarrow> pystr option" where
  "decode [] = Some []"
| "decode (b # bs) =
     (case lead_info (unat b) of
        None \<Rightarrow> None
      | Some (k, lo, hi, v) \<Rightarrow>
          (let cs = take k bs in
           if length cs = k \<and> cont_ok lo hi cs then
             (case decode (drop k bs) of
                None \<Rightarrow> None
              | Some r \<Rightarrow> Some (foldl (\<lambda>a c. a * 64 + (unat c - 0x80)) v cs # r))
           else None))"
  by pat_completeness auto
termination
  by (relation "measure length") auto

subsection \<open>\<open>struct.pack\<close> and \<open>struct.unpack\<close> with the formats \<open><L\<close> and \<open><LL\<close>\<close>

definition le32 :: "nat \<Rightarrow> byte list" where
  "le32 n = [of_nat (n mod 256), of_nat (n div 256 mod 256),
             of_nat (n div 65536 mod 256), of_nat (n div 16777216 mod 256)]"

text \<open>\<open>struct.pack('<L', x)\<close> raises \<open>struct.error\<close> unless \<open>0 \<le> x < 2**32\<close>.\<close>

definition pack_L :: "int \<Rightarrow> error + byte list" where
  "pack_L x = (if 0 \<le> x \<and> x < 2 ^ 32 then Inr (le32 (nat x)) else Inl StructError)"

definition pack_LL :: "int \<Rightarrow> int \<Rightarrow> error + byte list" where
  "pack_LL x y =
     (if 0 \<le> x \<and> x < 2 ^ 32 \<and> 0 \<le> y \<and> y < 2 ^ 32
      then Inr (le32 (nat x) @ le32 (nat y)) else Inl StructError)"

text \<open>\<open>struct.unpack\<close> raises \<open>struct.error\<close> unless the buffer has the format's size.\<close>

definition unpack_L :: "byte list \<Rightarrow> error + nat" where
  "unpack_L bs =
     (case bs of
        [b0, b1, b2, b3] \<Rightarrow>
          Inr (unat b0 + 256 * unat b1 + 65536 * unat b2 + 16777216 * unat b3)
      | _ \<Rightarrow> Inl StructError)"

definition unpack_LL :: "byte list \<Rightarrow> error + nat \<times> nat" where
  "unpack_LL bs =
     (if length bs = 8 then
        (case (unpack_L (take 4 bs), unpack_L (drop 4 bs)) of
           (Inr x, Inr y) \<Rightarrow> Inr (x, y)
         | _ \<Rightarrow> Inl StructError)
      else Inl StructError)"

subsection \<open>A binary file opened for reading\<close>

record rfile =
  data :: "byte list"
  pos :: nat

text \<open>\<open>f.read(n)\<close> returns the bytes that are there, fewer than \<open>n\<close> at the end of the file.\<close>

definition read :: "nat \<Rightarrow> rfile \<Rightarrow> byte list \<times> rfile" where
  "read n f =
     (let bs = take n (drop (pos f) (data f)) in (bs, f\<lparr>pos := pos f + length bs\<rparr>))"

definition seek :: "nat \<Rightarrow> rfile \<Rightarrow> rfile" where
  "seek k f = f\<lparr>pos := k\<rparr>"

section \<open>The data model\<close>

record FileEntry =
  path :: pystr
  contents :: "byte list"

text \<open>The property \<open>FileEntry.size\<close>.\<close>

definition size_entry :: "FileEntry \<Rightarrow> int" where
  "size_entry e = 8 + int (length (path e)) + int (length (contents e))"

record FTLPack =
  index :: "FileEntry list"
  index_size :: int

section \<open>\<open>FTLPack.load\<close>\<close>

text \<open>The body of the loop over the index slots, for the slot at \<open>index_offset\<close>.\<close>

definition load_slot :: "nat \<Rightarrow> FTLPack \<Rightarrow> rfile \<Rightarrow> (FTLPack \<times> rfile) \<times> error option" where
  "load_slot index_offset self f =
     (let f = seek index_offset f;
          (b, f) = read 4 f
      in case unpack_L b of
           Inl e \<Rightarrow> ((self, f), Some e)
         | Inr offset \<Rightarrow>
             if offset > 0 then
               (let f = seek offset f;
                    (h, f) = read 8 f
                in case unpack_LL h of
                     Inl e \<Rightarrow> ((self, f), Some e)
                   | Inr (sz, path_len) \<Rightarrow>
                       (let (pb, f) = read path_len f
                        in case decode pb of
                             None \<Rightarrow> ((self, f), Some UnicodeDecodeError)
                           | Some p \<Rightarrow>
                               (let (c, f) = read sz f
                                in ((self\<lparr>index := index self @ [\<lparr>path = p, contents = c\<rparr>]\<rparr>, f),
                                    None))))
             else ((self, f), None))"

fun load_loop :: "nat list \<Rightarrow> FTLPack \<Rightarrow> rfile \<Rightarrow> (FTLPack \<times> rfile) \<times> error option" where
  "load_loop [] self f = ((self, f), None)"
| "load_loop (i # is) self f =
     (case load_slot i self f of
        ((self', f'), None) \<Rightarrow> load_loop is self' f'
      | ((self', f'), Some e) \<Rightarrow> ((self', f'), Some e))"

text \<open>\<open>range(4, 4 + 4 * n, 4)\<close>\<close>

definition index_offsets :: "nat \<Rightarrow> nat list" where
  "index_offsets n = map (\<lambda>i. 4 + 4 * i) [0..<n]"

text \<open>
  \<open>load self fdata\<close>: the method on the object \<open>self\<close>, for a file that exists and
  whose content is \<open>fdata\<close>.  The result is the object after the call and the exception
  raised, if any.
\<close>

definition load :: "FTLPack \<Rightarrow> byte list \<Rightarrow> FTLPack \<times> error option" where
  "load self fdata =
     (let self = self\<lparr>index := []\<rparr>;
          f = \<lparr>data = fdata, pos = 0\<rparr>;
          (h, f) = read 4 f
      in case unpack_L h of
           Inl e \<Rightarrow> (self, Some e)
         | Inr n \<Rightarrow>
             (let self = self\<lparr>index_size := int n\<rparr>
              in case load_loop (index_offsets n) self f of
                   ((self, f), Some e) \<Rightarrow> (self, Some e)
                 | ((self, f), None) \<Rightarrow> (let f = seek (4 + 4 * n) f in (self, None))))"

section \<open>\<open>FTLPack.save\<close>\<close>

text \<open>
  The file opened for writing is the list of the bytes written so far.  Each loop returns
  that list and the exception that stopped it, if any.
\<close>

fun write_offsets :: "FileEntry list \<Rightarrow> int \<Rightarrow> byte list \<Rightarrow> byte list \<times> error option" where
  "write_offsets [] offset f = (f, None)"
| "write_offsets (entry # es) offset f =
     (case pack_L offset of
        Inl e \<Rightarrow> (f, Some e)
      | Inr b \<Rightarrow> write_offsets es (offset + size_entry entry) (f @ b))"

fun write_entries :: "FileEntry list \<Rightarrow> byte list \<Rightarrow> byte list \<times> error option" where
  "write_entries [] f = (f, None)"
| "write_entries (entry # es) f =
     (case pack_LL (int (length (contents entry))) (int (length (path entry))) of
        Inl e \<Rightarrow> (f, Some e)
      | Inr h \<Rightarrow>
          (case encode (path entry) of
             None \<Rightarrow> (f @ h, Some UnicodeEncodeError)
           | Some pb \<Rightarrow> write_entries es (f @ h @ pb @ contents entry)))"

text \<open>
  \<open>save self\<close>: the first component is \<open>None\<close> when the target file was never opened (it
  is left as it was), and \<open>Some bs\<close> when it was opened for writing and holds \<open>bs\<close> when the
  call ends; the second is the exception raised, if any.
\<close>

definition save :: "FTLPack \<Rightarrow> byte list option \<times> error option" where
  "save self =
     (if int (length (index self)) > index_size self then
        (None, Some (FTLPackError (''Index ('' @ str_int (int (length (index self)))
                                   @ '') too small for '' @ str_int (index_size self)
                                   @ '' entries.'')))
      else
        (case pack_L (index_size self) of
           Inl e \<Rightarrow> (Some [], Some e)
         | Inr h \<Rightarrow>
             (case write_offsets (index self) (4 + 4 * index_size self) h of
                (f, Some e) \<Rightarrow> (Some f, Some e)
              | (f, None) \<Rightarrow>
                  (let f = f @ replicate (4 * nat (index_size self - int (length (index self)))) 0
                   in case write_entries (index self) f of (f, r) \<Rightarrow> (Some f, r)))))"

section \<open>\<open>FTLPack.construct\<close>\<close>

text \<open>
  What \<open>construct\<close> asks of the operating system: \<open>os.path.sep\<close> (one character),
  the paths that \<open>glob.iglob(os.path.join(path, '**'), recursive=True)\<close> yields for a root,
  \<open>os.path.islink\<close>, \<open>os.readlink\<close>, \<open>os.path.isfile\<close>, and the bytes that opening a file
  and reading it returns.
\<close>

record os_env =
  sep :: codepoint
  iglob :: "pystr \<Rightarrow> pystr list"
  islink :: "pystr \<Rightarrow> bool"
  readlink :: "pystr \<Rightarrow> error + pystr"
  isfile :: "pystr \<Rightarrow> bool"
  read_file :: "pystr \<Rightarrow> error + byte list"

text \<open>\<open>s.replace(os.path.sep, '/')\<close>\<close>

definition replace_sep :: "codepoint \<Rightarrow> pystr \<Rightarrow> pystr" where
  "replace_sep s p = map (\<lambda>c. if c = s then 47 else c) p"

fun construct_loop :: "os_env \<Rightarrow> nat \<Rightarrow> pystr list \<Rightarrow> FTLPack \<Rightarrow> FTLPack \<times> error option" where
  "construct_loop os clip [] self = (self, None)"
| "construct_loop os clip (p # ps) self =
     (case (if islink os p then readlink os p else Inr p) of
        Inl e \<Rightarrow> (self, Some e)
      | Inr p' \<Rightarrow>
          if \<not> isfile os p' then construct_loop os clip ps self
          else
            (case read_file os p' of
               Inl e \<Rightarrow> (self, Some e)
             | Inr c \<Rightarrow>
                 construct_loop os clip ps
                   (self\<lparr>index := index self @
                      [\<lparr>path = replace_sep (sep os) (drop clip p'), contents = c\<rparr>]\<rparr>)))"

definition construct :: "os_env \<Rightarrow> FTLPack \<Rightarrow> pystr \<Rightarrow> int \<Rightarrow> FTLPack \<times> error option" where
  "construct os self root min_index =
     (let self = self\<lparr>index := []\<rparr>;
          clip = length root + 1
      in case construct_loop os clip (iglob os root) self of
           (self, Some e) \<Rightarrow> (self, Some e)
         | (self, None) \<Rightarrow>
             (self\<lparr>index_size := max (int (length (index self))) min_index\<rparr>, None))"

text \<open>The default of the parameter \<open>min_index\<close>.\<close>

definition construct_default :: "os_env \<Rightarrow> FTLPack \<Rightarrow> pystr \<Rightarrow> FTLPack \<times> error option" where
  "construct_default os self root = construct os self root 2048"

section \<open>Notions used to state the properties\<close>

text \<open>A string of ASCII characters: \<open>len\<close> of it is also the length of its UTF-8 form.\<close>

definition is_ascii :: "pystr \<Rightarrow> bool" where
  "is_ascii s = (\<forall>c \<in> set s. c < 128)"

text \<open>The values of \<open>offset\<close> that the first loop of \<open>save\<close> passes to \<open>struct.pack\<close>.\<close>

fun slot_values :: "FileEntry list \<Rightarrow> int \<Rightarrow> int list" where
  "slot_values [] offset = []"
| "slot_values (entry # es) offset = offset # slot_values es (offset + size_entry entry)"

text \<open>The bytes that the second loop of \<open>save\<close> writes for one entry when nothing fails.\<close>

definition entry_record :: "FileEntry \<Rightarrow> byte list" where
  "entry_record entry =
     le32 (length (contents entry)) @ le32 (length (path entry))
     @ (case encode (path entry) of None \<Rightarrow> [] | Some pb \<Rightarrow> pb) @ contents entry"

text \<open>The unsigned 32-bit number at position \<open>k\<close> of a stream, if four bytes are there.\<close>

definition u32_at :: "byte list \<Rightarrow> nat \<Rightarrow> nat option" where
  "u32_at bs k = (case unpack_L (take 4 (drop k bs)) of Inl e \<Rightarrow> None | Inr v \<Rightarrow> Some v)"

text \<open>
  The stream ends inside the index slot at position \<open>k\<close>, or inside the two length fields
  of the record that the slot points to.
\<close>

definition slot_cut :: "byte list \<Rightarrow> nat \<Rightarrow> bool" where
  "slot_cut bs k =
     (case u32_at bs k of None \<Rightarrow> True | Some off \<Rightarrow> 0 < off \<and> length bs < off + 8)"

text \<open>
  The stream ends inside the header, inside one of the index slots that the header
  announces, or inside the two length fields of a record that a slot points to.
\<close>

definition fixed_field_cut :: "byte list \<Rightarrow> bool" where
  "fixed_field_cut bs =
     (case u32_at bs 0 of
        None \<Rightarrow> True
      | Some n \<Rightarrow> list_ex (slot_cut bs) (index_offsets n))"

text \<open>
  The slot at position \<open>k\<close> points to a record whose path bytes, as far as the stream
  has them, are not valid UTF-8.
\<close>

definition bad_path_at :: "byte list \<Rightarrow> nat \<Rightarrow> bool" where
  "bad_path_at bs k =
     (case u32_at bs k of
        None \<Rightarrow> False
      | Some off \<Rightarrow>
          0 < off \<and>
          (case unpack_LL (take 8 (drop off bs)) of
             Inl e \<Rightarrow> False
           | Inr (sz, path_len) \<Rightarrow> decode (take path_len (drop (off + 8) bs)) = None))"

text \<open>Some slot that the header announces points to a record with such path bytes.\<close>

definition has_bad_path :: "byte list \<Rightarrow> bool" where
  "has_bad_path bs =
     (case u32_at bs 0 of
        None \<Rightarrow> False
      | Some n \<Rightarrow> list_ex (bad_path_at bs) (index_offsets n))"

section \<open>Concrete objects and streams\<close>

text \<open>The object that \<open>FTLPack()\<close> creates when no path is given.\<close>

definition FTLPack_init :: FTLPack where
  "FTLPack_init = \<lparr>index = [], index_size = 0\<rparr>"

text \<open>The entries \<open>("a.txt", b"hi")\<close> and \<open>("b/c.txt", b"bye")\<close> with two index slots.\<close>

definition scenario :: FTLPack where
  "scenario = \<lparr>index = [\<lparr>path = pystr_of ''a.txt'', contents = bytes_of ''hi''\<rparr>,
                          \<lparr>path = pystr_of ''b/c.txt'', contents = bytes_of ''bye''\<rparr>],
               index_size = 2\<rparr>"

definition scenario_bytes :: "byte list" where
  "scenario_bytes =
     [0x02, 0, 0, 0] @ [0x0C, 0, 0, 0] @ [0x1B, 0, 0, 0]
     @ ([2, 0, 0, 0] @ [5, 0, 0, 0] @ bytes_of ''a.txt'' @ bytes_of ''hi'')
     @ ([3, 0, 0, 0] @ [7, 0, 0, 0] @ bytes_of ''b/c.txt'' @ bytes_of ''bye'')"

text \<open>One entry with an ASCII path, three index slots.\<close>

definition one_entry :: FTLPack where
  "one_entry = \<lparr>index = [\<lparr>path = pystr_of ''x'', contents = [1, 2, 3]\<rparr>], index_size = 3\<rparr>"

definition one_entry_bytes :: "byte list" where
  "one_entry_bytes =
     [3, 0, 0, 0] @ [16, 0, 0, 0] @ [0, 0, 0, 0] @ [0, 0, 0, 0]
     @ ([3, 0, 0, 0] @ [1, 0, 0, 0] @ bytes_of ''x'' @ [1, 2, 3])"

text \<open>No entry, and an index size that does not fit the four-byte header.\<close>

definition huge_capacity :: FTLPack where
  "huge_capacity = \<lparr>index = [], index_size = 2 ^ 32\<rparr>"

text \<open>The path \<open>U+00FC\<close> followed by \<open>.txt\<close>: five characters, six bytes in UTF-8.\<close>

definition umlaut_pack :: FTLPack where
  "umlaut_pack = \<lparr>index = [\<lparr>path = [0xFC, 0x2E, 0x74, 0x78, 0x74], contents = bytes_of ''x''\<rparr>],
                  index_size = 1\<rparr>"

definition umlaut_bytes :: "byte list" where
  "umlaut_bytes = [1, 0, 0, 0] @ [8, 0, 0, 0]
                   @ ([1, 0, 0, 0] @ [5, 0, 0, 0] @ [0xC3, 0xBC, 0x2E, 0x74, 0x78, 0x74] @ [0x78])"

text \<open>The path \<open>U+20AC\<close>: one character, three bytes in UTF-8.\<close>

definition euro_entry :: FileEntry where
  "euro_entry = \<lparr>path = [0x20AC], contents = [1, 2]\<rparr>"

text \<open>The path \<open>U+00E9\<close>: one character, two bytes in UTF-8.\<close>

definition acute_pack :: FTLPack where
  "acute_pack = \<lparr>index = [\<lparr>path = [0xE9], contents = []\<rparr>], index_size = 1\<rparr>"

text \<open>Two entries for one index slot.\<close>

definition over_full :: FTLPack where
  "over_full = \<lparr>index = [\<lparr>path = pystr_of ''a'', contents = []\<rparr>,
                           \<lparr>path = pystr_of ''b'', contents = [1]\<rparr>], index_size = 1\<rparr>"

text \<open>
  Streams with one slot: the record announces five content bytes where two remain; the
  record announces five path bytes where two remain; the stream ends inside the two
  length fields of the record.
\<close>

definition short_contents :: "byte list" where
  "short_contents =
     [1, 0, 0, 0] @ [8, 0, 0, 0] @ ([5, 0, 0, 0] @ [1, 0, 0, 0] @ bytes_of ''a'' @ [1, 2])"

definition short_path :: "byte list" where
  "short_path = [1, 0, 0, 0] @ [8, 0, 0, 0] @ ([0, 0, 0, 0] @ [5, 0, 0, 0] @ bytes_of ''ab'')"

definition cut_record_header :: "byte list" where
  "cut_record_header = [1, 0, 0, 0] @ [8, 0, 0, 0] @ [5, 0, 0, 0] @ [1, 0]"

text \<open>
  A stream with two slots that holds the record of the first and ends inside the two
  length fields of the record of the second.
\<close>

definition cut_second_record :: "byte list" where
  "cut_second_record =
     [2, 0, 0, 0] @ [12, 0, 0, 0] @ [22, 0, 0, 0]
     @ ([1, 0, 0, 0] @ [1, 0, 0, 0] @ bytes_of ''a'' @ bytes_of ''x'') @ [2, 0, 0]"

text \<open>The path \<open>U+00F1\<close> with three index slots, and what \<open>save\<close> writes for it.\<close>

definition enye_pack :: FTLPack where
  "enye_pack = \<lparr>index = [\<lparr>path = [0xF1], contents = [7]\<rparr>], index_size = 3\<rparr>"

definition enye_bytes :: "byte list" where
  "enye_bytes = [3, 0, 0, 0] @ [16, 0, 0, 0] @ [0, 0, 0, 0] @ [0, 0, 0, 0]
                 @ ([1, 0, 0, 0] @ [1, 0, 0, 0] @ [0xC3, 0xB1] @ [7])"

text \<open>An entry of \<open>2 ** 32\<close> content bytes, alone and after an entry whose path is a lone
  surrogate; and a path of \<open>2 ** 31\<close> characters of two bytes each.\<close>

definition big_file :: FTLPack where
  "big_file = \<lparr>index = [\<lparr>path = pystr_of ''big'', contents = replicate (2 ^ 32) 0\<rparr>],
               index_size = 1\<rparr>"

definition surrogate_then_big :: FTLPack where
  "surrogate_then_big =
     \<lparr>index = [\<lparr>path = [0xDC80], contents = []\<rparr>,
               \<lparr>path = pystr_of ''a'', contents = replicate (2 ^ 32) 0\<rparr>],
      index_size = 2\<rparr>"

definition long_path :: FTLPack where
  "long_path = \<lparr>index = [\<lparr>path = replicate (2 ^ 31) 0xE9, contents = []\<rparr>], index_size = 1\<rparr>"

text \<open>
  A directory \<open>t\<close> that holds a directory \<open>d\<close> with the file \<open>f.txt\<close>, on a system whose
  separator is \<open>/\<close>, and the object that \<open>construct\<close> builds from it.
\<close>

definition tree_env :: os_env where
  "tree_env =
     \<lparr>sep = 47,
      iglob = (\<lambda>root. [pystr_of ''t/'', pystr_of ''t/d'', pystr_of ''t/d/f.txt'']),
      islink = (\<lambda>p. False),
      readlink = (\<lambda>p. Inl OSError),
      isfile = (\<lambda>p. p = pystr_of ''t/d/f.txt''),
      read_file = (\<lambda>p. if p = pystr_of ''t/d/f.txt'' then Inr [1, 2] else Inl OSError)\<rparr>"

definition tree_pack :: "int \<Rightarrow> FTLPack" where
  "tree_pack n = \<lparr>index = [\<lparr>path = pystr_of ''d/f.txt'', contents = [1, 2]\<rparr>], index_size = n\<rparr>"

section \<open>Packing and unpacking numbers\<close>

lemma unat_byte: "unat (of_nat n :: byte) = n mod 256"
  by (simp add: unat_of_nat)

lemma le32_sum:
  assumes "n < 2 ^ 32"
  shows "n mod 256 + 256 * (n div 256 mod 256) + 65536 * (n div 65536 mod 256)
           + 16777216 * (n div 16777216 mod 256) = (n::nat)"
proof -
  define m1 where "m1 = n div 256"
  define m2 where "m2 = m1 div 256"
  define m3 where "m3 = m2 div 256"
  have d2: "n div 65536 = m2"
    unfolding m2_def m1_def by (simp add: div_mult2_eq)
  have d3: "n div 16777216 = m3"
    unfolding m3_def m2_def m1_def by (simp add: div_mult2_eq)
  have s0: "n = n mod 256 + 256 * m1"
    unfolding m1_def by simp
  have s1: "m1 = m1 mod 256 + 256 * m2"
    unfolding m2_def by simp
  have s2: "m2 = m2 mod 256 + 256 * m3"
    unfolding m3_def by simp
  have "m3 < 256"
    using assms unfolding d3 [symmetric] by (simp add: less_mult_imp_div_less)
  then have s3: "m3 mod 256 = m3"
    by simp
  have "n mod 256 + 256 * (m1 mod 256) + 65536 * (m2 mod 256) + 16777216 * (m3 mod 256) = n"
    using s0 s1 s2 s3 by linarith
  then show ?thesis
    unfolding d2 d3 m1_def [symmetric] .
qed

lemma unpack_le32: "n < 2 ^ 32 \<Longrightarrow> unpack_L (le32 n) = Inr n"
  unfolding unpack_L_def le32_def
  by (simp only: list.case unat_byte mod_mod_trivial le32_sum)

lemma length_le32 [simp]: "length (le32 n) = 4"
  by (simp add: le32_def)

lemma unpack_LL_le32:
  "x < 2 ^ 32 \<Longrightarrow> y < 2 ^ 32 \<Longrightarrow> unpack_LL (le32 x @ le32 y) = Inr (x, y)"
  by (simp add: unpack_LL_def unpack_le32)

lemma pack_L_Inr: "pack_L x = Inr b \<longleftrightarrow> 0 \<le> x \<and> x < 2 ^ 32 \<and> b = le32 (nat x)"
  by (auto simp: pack_L_def)

lemma pack_L_Inl: "pack_L x = Inl e \<Longrightarrow> e = StructError"
  by (auto simp: pack_L_def split: if_splits)

lemma pack_LL_Inr:
  "pack_LL x y = Inr b \<longleftrightarrow>
     0 \<le> x \<and> x < 2 ^ 32 \<and> 0 \<le> y \<and> y < 2 ^ 32 \<and> b = le32 (nat x) @ le32 (nat y)"
  by (auto simp: pack_LL_def)

lemma pack_LL_Inl: "pack_LL x y = Inl e \<Longrightarrow> e = StructError"
  by (auto simp: pack_LL_def split: if_splits)

subsection \<open>UTF-8 on ASCII strings\<close>

lemma encode_cp_ascii: "c < 128 \<Longrightarrow> encode_cp c = Some [of_nat c]"
  by (simp add: encode_cp_def)

lemma encode_ascii: "is_ascii s \<Longrightarrow> encode s = Some (map of_nat s)"
  by (induction s) (simp_all add: is_ascii_def encode_cp_ascii)

lemma decode_ascii: "is_ascii s \<Longrightarrow> decode (map of_nat s) = Some s"
  by (induction s) (simp_all add: is_ascii_def unat_byte lead_info_def cont_ok_def)

lemma encode_cp_length: "encode_cp c = Some bs \<Longrightarrow> 1 \<le> length bs \<and> (length bs = 1 \<longleftrightarrow> c < 128)"
  by (auto simp: encode_cp_def split: if_splits)

lemma encode_length: "encode s = Some bs \<Longrightarrow> length s \<le> length bs"
proof (induction s arbitrary: bs)
  case Nil
  then show ?case by simp
next
  case (Cons c s)
  then obtain b r where b: "encode_cp c = Some b" and r: "encode s = Some r" and bs: "bs = b @ r"
    by (auto split: option.splits)
  from encode_cp_length [OF b] Cons.IH [OF r] bs show ?case
    by simp
qed

lemma encode_length_eq_iff:
  "encode s = Some bs \<Longrightarrow> length bs = length s \<longleftrightarrow> is_ascii s"
proof (induction s arbitrary: bs)
  case Nil
  then show ?case by (simp add: is_ascii_def)
next
  case (Cons c s)
  then obtain b r where b: "encode_cp c = Some b" and r: "encode s = Some r" and bs: "bs = b @ r"
    by (auto split: option.splits)
  from encode_cp_length [OF b] encode_length [OF r] Cons.IH [OF r] bs show ?case
    by (auto simp: is_ascii_def)
qed

subsection \<open>Decoding what was encoded\<close>

lemma unat_byte_small: "n < 256 \<Longrightarrow> unat (of_nat n :: byte) = n"
  by (simp add: unat_byte)

lemma decode_cons:
  assumes "lead_info (unat b) = Some (k, lo, hi, v)" and "length cs = k" and "cont_ok lo hi cs"
  shows "decode (b # cs @ rest)
           = map_option ((#) (foldl (\<lambda>a c. a * 64 + (unat c - 0x80)) v cs)) (decode rest)"
  using assms by (simp add: Let_def split: option.splits)

lemma decode_encode_cp:
  assumes "encode_cp c = Some bs"
  shows "decode (bs @ rest) = map_option ((#) c) (decode rest)"
proof -
  let ?F = "\<lambda>a b. a * 64 + (unat (b :: byte) - 0x80)"
  consider (one) "c < 0x80"
    | (two) "0x80 \<le> c" "c < 0x800"
    | (three) "0x800 \<le> c" "c < 0x10000" "\<not> (0xD800 \<le> c \<and> c \<le> 0xDFFF)"
    | (four) "0x10000 \<le> c" "c < 0x110000"
    using assms by (auto simp: encode_cp_def split: if_splits)
  then show ?thesis
  proof cases
    case one
    define B0 :: byte where "B0 = of_nat c"
    have u0: "unat B0 = c"
      unfolding B0_def using one by (intro unat_byte_small) simp
    have bs: "bs = B0 # [] @ []"
      using assms one by (simp add: encode_cp_def B0_def)
    have li: "lead_info (unat B0) = Some (0, 0x80, 0xBF, c)"
      using one by (simp add: u0 lead_info_def)
    have "decode (B0 # [] @ rest) = map_option ((#) (foldl ?F c [])) (decode rest)"
      by (rule decode_cons [OF li]) (simp_all add: cont_ok_def)
    then show ?thesis
      by (simp only: bs foldl_Nil append_Nil append_Cons)
  next
    case two
    define B0 :: byte where "B0 = of_nat (0xC0 + c div 64)"
    define B1 :: byte where "B1 = of_nat (0x80 + c mod 64)"
    have d: "c div 64 < 32" "2 \<le> c div 64"
      using two by simp_all
    have u0: "unat B0 = 0xC0 + c div 64"
      unfolding B0_def using d by (intro unat_byte_small) simp
    have u1: "unat B1 = 0x80 + c mod 64"
      unfolding B1_def by (intro unat_byte_small) simp
    have bs: "bs = B0 # [B1]"
      using assms two by (simp add: encode_cp_def B0_def B1_def)
    have li: "lead_info (unat B0) = Some (1, 0x80, 0xBF, c div 64)"
      using d by (simp add: u0 lead_info_def)
    have ok: "cont_ok 0x80 0xBF [B1]"
      by (simp add: cont_ok_def u1)
    have v: "c div 64 * 64 + c mod 64 = c"
      by simp
    have fold: "foldl ?F (c div 64) [B1] = c"
      by (simp add: u1)
    have "decode (B0 # [B1] @ rest) = map_option ((#) (foldl ?F (c div 64) [B1])) (decode rest)"
      by (rule decode_cons [OF li _ ok]) simp
    then show ?thesis
      by (simp only: bs fold append_Nil append_Cons)
  next
    case three
    define B0 :: byte where "B0 = of_nat (0xE0 + c div 4096)"
    define B1 :: byte where "B1 = of_nat (0x80 + c div 64 mod 64)"
    define B2 :: byte where "B2 = of_nat (0x80 + c mod 64)"
    define p where "p = c div 4096"
    define q where "q = c div 64 mod 64"
    have q64: "q < 64"
      by (simp add: q_def)
    have p16: "p < 16"
      using three by (simp add: p_def)
    have p': "p = c div 64 div 64"
      unfolding p_def by (simp add: div_mult2_eq [symmetric])
    have cq: "c div 64 = 64 * p + q"
      unfolding p' q_def by simp
    have c3: "c = 64 * (c div 64) + c mod 64"
      by simp
    have c: "c = 4096 * p + 64 * q + c mod 64"
      using cq c3 by linarith
    have u0: "unat B0 = 0xE0 + p"
      unfolding B0_def p_def [symmetric] using p16 by (intro unat_byte_small) simp
    have u1: "unat B1 = 0x80 + q"
      unfolding B1_def q_def [symmetric] using q64 by (intro unat_byte_small) simp
    have u2: "unat B2 = 0x80 + c mod 64"
      unfolding B2_def by (intro unat_byte_small) simp
    have bs: "bs = B0 # [B1, B2]"
      using assms three by (simp add: encode_cp_def B0_def B1_def B2_def)
    have m64: "c mod 64 < 64"
      by simp
    have lo: "32 \<le> q" if "p = 0"
    proof -
      from that c have "c = 64 * q + c mod 64" by simp
      with three(1) m64 show ?thesis by linarith
    qed
    have hi: "q < 32" if "p = 13"
    proof -
      from that c have e: "c = 53248 + 64 * q + c mod 64" by simp
      with q64 m64 have "c \<le> 57343" by linarith
      with three(3) have "c < 55296" by simp
      with e show ?thesis by linarith
    qed
    have "\<exists>l h. lead_info (unat B0) = Some (2, l, h, p) \<and> l \<le> 0x80 + q \<and> 0x80 + q \<le> h"
    proof -
      consider "p = 0" | "p = 13" | "p \<noteq> 0" "p \<noteq> 13"
        by blast
      then show ?thesis
      proof cases
        case 1
        with lo show ?thesis
          using q64 by (simp add: u0 lead_info_def)
      next
        case 2
        with hi show ?thesis
          by (simp add: u0 lead_info_def)
      next
        case 3
        with p16 q64 show ?thesis
          by (simp add: u0 lead_info_def)
      qed
    qed
    then obtain l h where li: "lead_info (unat B0) = Some (2, l, h, p)"
      and ok: "l \<le> 0x80 + q" "0x80 + q \<le> h"
      by blast
    have ck: "cont_ok l h [B1, B2]"
      using ok by (simp add: cont_ok_def u1 u2)
    have v: "(p * 64 + q) * 64 + c mod 64 = c"
      using c by simp
    have "foldl ?F p [B1, B2] = (p * 64 + q) * 64 + c mod 64"
      by (simp add: u1 u2)
    with v have fold: "foldl ?F p [B1, B2] = c"
      by (simp only:)
    have "decode (B0 # [B1, B2] @ rest) = map_option ((#) (foldl ?F p [B1, B2])) (decode rest)"
      by (rule decode_cons [OF li _ ck]) simp
    then show ?thesis
      by (simp only: bs fold append_Nil append_Cons)
  next
    case four
    define B0 :: byte where "B0 = of_nat (0xF0 + c div 262144)"
    define B1 :: byte where "B1 = of_nat (0x80 + c div 4096 mod 64)"
    define B2 :: byte where "B2 = of_nat (0x80 + c div 64 mod 64)"
    define B3 :: byte where "B3 = of_nat (0x80 + c mod 64)"
    define p where "p = c div 262144"
    define q where "q = c div 4096 mod 64"
    define r where "r = c div 64 mod 64"
    have q64: "q < 64" and r64: "r < 64"
      by (simp_all add: q_def r_def)
    have p5: "p < 5"
      using four by (simp add: p_def)
    have p': "p = c div 4096 div 64"
      unfolding p_def by (simp add: div_mult2_eq [symmetric])
    have c1: "c div 4096 = 64 * p + q"
      unfolding p' q_def by simp
    have d': "c div 4096 = c div 64 div 64"
      by (simp add: div_mult2_eq [symmetric])
    have c2: "c div 64 = 64 * (c div 4096) + r"
      unfolding d' r_def by simp
    have c3: "c = 64 * (c div 64) + c mod 64"
      by simp
    have c: "c = 262144 * p + 4096 * q + 64 * r + c mod 64"
      using c1 c2 c3 by linarith
    have u0: "unat B0 = 0xF0 + p"
      unfolding B0_def p_def [symmetric] using p5 by (intro unat_byte_small) simp
    have u1: "unat B1 = 0x80 + q"
      unfolding B1_def q_def [symmetric] using q64 by (intro unat_byte_small) simp
    have u2: "unat B2 = 0x80 + r"
      unfolding B2_def r_def [symmetric] using r64 by (intro unat_byte_small) simp
    have u3: "unat B3 = 0x80 + c mod 64"
      unfolding B3_def by (intro unat_byte_small) simp
    have bs: "bs = B0 # [B1, B2, B3]"
      using assms four by (simp add: encode_cp_def B0_def B1_def B2_def B3_def)
    have m64: "c mod 64 < 64"
      by simp
    have lo: "16 \<le> q" if "p = 0"
    proof -
      from that c have "c = 4096 * q + 64 * r + c mod 64" by simp
      with four(1) r64 m64 show ?thesis by linarith
    qed
    have hi: "q < 16" if "p = 4"
    proof -
      from that c have "c = 1048576 + 4096 * q + 64 * r + c mod 64" by simp
      with four(2) show ?thesis by linarith
    qed
    have "\<exists>l h. lead_info (unat B0) = Some (3, l, h, p) \<and> l \<le> 0x80 + q \<and> 0x80 + q \<le> h"
    proof -
      consider "p = 0" | "p = 4" | "p \<noteq> 0" "p \<noteq> 4"
        by blast
      then show ?thesis
      proof cases
        case 1
        with lo show ?thesis
          using q64 by (simp add: u0 lead_info_def)
      next
        case 2
        with hi show ?thesis
          by (simp add: u0 lead_info_def)
      next
        case 3
        with p5 q64 show ?thesis
          by (simp add: u0 lead_info_def)
      qed
    qed
    then obtain l h where li: "lead_info (unat B0) = Some (3, l, h, p)"
      and ok: "l \<le> 0x80 + q" "0x80 + q \<le> h"
      by blast
    have ck: "cont_ok l h [B1, B2, B3]"
      using ok r64 by (simp add: cont_ok_def u1 u2 u3)
    have v: "((p * 64 + q) * 64 + r) * 64 + c mod 64 = c"
      using c by simp
    have "foldl ?F p [B1, B2, B3] = ((p * 64 + q) * 64 + r) * 64 + c mod 64"
      by (simp add: u1 u2 u3)
    with v have fold: "foldl ?F p [B1, B2, B3] = c"
      by (simp only:)
    have "decode (B0 # [B1, B2, B3] @ rest)
            = map_option ((#) (foldl ?F p [B1, B2, B3])) (decode rest)"
      by (rule decode_cons [OF li _ ck]) simp
    then show ?thesis
      by (simp only: bs fold append_Nil append_Cons)
  qed
qed

lemma decode_encode: "encode s = Some bs \<Longrightarrow> decode bs = Some s"
proof (induction s arbitrary: bs)
  case Nil
  then show ?case by simp
next
  case (Cons c s)
  then obtain b r where b: "encode_cp c = Some b" and r: "encode s = Some r" and bs: "bs = b @ r"
    by (auto split: option.splits)
  from decode_encode_cp [OF b, of r] Cons.IH [OF r] bs show ?case
    by simp
qed

text \<open>A decoded string has at most as many characters as there were bytes, and as many
  only when it is ASCII.\<close>

lemma lead_info_ascii: "lead_info n = Some (0, lo, hi, v) \<Longrightarrow> v = n \<and> n < 128"
  by (auto simp: lead_info_def split: if_splits)

lemma decode_length:
  "decode bs = Some s \<Longrightarrow> length s \<le> length bs \<and> (length s = length bs \<longrightarrow> is_ascii s)"
proof (induction bs arbitrary: s rule: decode.induct)
  case 1
  then show ?case by (simp add: is_ascii_def)
next
  case (2 b bs)
  from "2.prems" obtain k lo hi v where li: "lead_info (unat b) = Some (k, lo, hi, v)"
    by (auto split: option.splits)
  with "2.prems" obtain r where lk: "length (take k bs) = k"
    and r: "decode (drop k bs) = Some r"
    and s: "s = foldl (\<lambda>a c. a * 64 + (unat c - 0x80)) v (take k bs) # r"
    by (auto simp: Let_def split: option.splits if_splits)
  have ih: "length r \<le> length (drop k bs) \<and> (length r = length (drop k bs) \<longrightarrow> is_ascii r)"
    using "2.IH" [OF li refl refl refl refl _ r] lk "2.prems" li
    by (auto simp: Let_def split: option.splits if_splits)
  have kb: "k \<le> length bs"
    using lk by simp
  show ?case
  proof (cases "k = 0")
    case True
    with li have "v = unat b" "unat b < 128"
      using lead_info_ascii by blast+
    with True s ih show ?thesis
      by (simp add: is_ascii_def)
  next
    case False
    with ih kb s show ?thesis
      by auto
  qed
qed

section \<open>What a successful \<open>save\<close> has written\<close>

lemma write_offsets_error:
  "write_offsets es off f = (f', Some e) \<Longrightarrow> e = StructError"
  by (induction es arbitrary: off f) (auto split: sum.splits dest: pack_L_Inl)

lemma write_offsets_ok:
  "write_offsets es off f = (f', None) \<Longrightarrow>
     f' = f @ concat (map (\<lambda>v. le32 (nat v)) (slot_values es off))
     \<and> (\<forall>v \<in> set (slot_values es off). 0 \<le> v \<and> v < 2 ^ 32)"
proof (induction es arbitrary: off f)
  case Nil
  then show ?case by simp
next
  case (Cons entry es)
  from Cons.prems obtain b where b: "pack_L off = Inr b"
    and rest: "write_offsets es (off + size_entry entry) (f @ b) = (f', None)"
    by (auto split: sum.splits)
  from b have "0 \<le> off" "off < 2 ^ 32" "b = le32 (nat off)"
    by (simp_all add: pack_L_Inr)
  with Cons.IH [OF rest] show ?case
    by simp
qed

lemma write_entries_ok:
  "write_entries es f = (f', None) \<Longrightarrow>
     f' = f @ concat (map entry_record es)
     \<and> (\<forall>e \<in> set es. length (contents e) < 2 ^ 32 \<and> length (path e) < 2 ^ 32
                       \<and> encode (path e) \<noteq> None)"
proof (induction es arbitrary: f)
  case Nil
  then show ?case by simp
next
  case (Cons entry es)
  from Cons.prems obtain h pb where h: "pack_LL (int (length (contents entry))) (int (length (path entry))) = Inr h"
    and pb: "encode (path entry) = Some pb"
    and rest: "write_entries es (f @ h @ pb @ contents entry) = (f', None)"
    by (auto split: sum.splits option.splits)
  from h have hb: "length (contents entry) < 2 ^ 32" "length (path entry) < 2 ^ 32"
    "h = le32 (length (contents entry)) @ le32 (length (path entry))"
    by (simp_all add: pack_LL_Inr)
  have rec: "entry_record entry = h @ pb @ contents entry"
    by (simp add: entry_record_def hb pb)
  from Cons.IH [OF rest] hb pb rec show ?case
    by simp
qed

lemma save_ok:
  assumes "save self = (Some bs, None)"
  shows "0 \<le> index_size self" and "index_size self < 2 ^ 32"
    and "int (length (index self)) \<le> index_size self"
    and "bs = le32 (nat (index_size self))
            @ concat (map (\<lambda>v. le32 (nat v)) (slot_values (index self) (4 + 4 * index_size self)))
            @ replicate (4 * (nat (index_size self) - length (index self))) 0
            @ concat (map entry_record (index self))"
    and "\<forall>v \<in> set (slot_values (index self) (4 + 4 * index_size self)). 0 \<le> v \<and> v < 2 ^ 32"
    and "\<forall>e \<in> set (index self). length (contents e) < 2 ^ 32 \<and> length (path e) < 2 ^ 32
                       \<and> encode (path e) \<noteq> None"
proof -
  from assms have le: "int (length (index self)) \<le> index_size self"
    by (auto simp: save_def split: if_splits)
  from assms le obtain h where h: "pack_L (index_size self) = Inr h"
    by (auto simp: save_def split: sum.splits)
  from assms le h obtain f1 where f1: "write_offsets (index self) (4 + 4 * index_size self) h = (f1, None)"
    by (auto simp: save_def split: prod.splits option.splits)
  from assms le h f1 have f3: "write_entries (index self)
      (f1 @ replicate (4 * nat (index_size self - int (length (index self)))) 0) = (bs, None)"
    by (auto simp: save_def Let_def split: prod.splits)
  from h have hh: "0 \<le> index_size self" "index_size self < 2 ^ 32" "h = le32 (nat (index_size self))"
    by (simp_all add: pack_L_Inr)
  have sub: "nat (index_size self - int (length (index self))) = nat (index_size self) - length (index self)"
    by (simp add: nat_diff_distrib')
  from hh show "0 \<le> index_size self" "index_size self < 2 ^ 32" by simp_all
  from le show "int (length (index self)) \<le> index_size self" .
  from write_offsets_ok [OF f1] write_entries_ok [OF f3] hh sub
  show "bs = le32 (nat (index_size self))
            @ concat (map (\<lambda>v. le32 (nat v)) (slot_values (index self) (4 + 4 * index_size self)))
            @ replicate (4 * (nat (index_size self) - length (index self))) 0
            @ concat (map entry_record (index self))"
    by simp
  from write_offsets_ok [OF f1]
  show "\<forall>v \<in> set (slot_values (index self) (4 + 4 * index_size self)). 0 \<le> v \<and> v < 2 ^ 32"
    by simp
  from write_entries_ok [OF f3]
  show "\<forall>e \<in> set (index self). length (contents e) < 2 ^ 32 \<and> length (path e) < 2 ^ 32
                       \<and> encode (path e) \<noteq> None"
    by simp
qed

text \<open>Conditions under which \<open>save\<close> raises nothing.\<close>

lemma write_offsets_total:
  "\<forall>v \<in> set (slot_values es off). 0 \<le> v \<and> v < 2 ^ 32 \<Longrightarrow>
     \<exists>f'. write_offsets es off f = (f', None)"
  by (induction es arbitrary: off f) (simp_all add: pack_L_def)

lemma write_entries_total:
  "\<forall>e \<in> set es. length (contents e) < 2 ^ 32 \<and> length (path e) < 2 ^ 32
                   \<and> encode (path e) \<noteq> None \<Longrightarrow>
     \<exists>f'. write_entries es f = (f', None)"
  by (induction es arbitrary: f) (auto simp: pack_LL_def)

lemma save_succeeds:
  assumes "int (length (index self)) \<le> index_size self" and "index_size self < 2 ^ 32"
    and "\<forall>v \<in> set (slot_values (index self) (4 + 4 * index_size self)). v < 2 ^ 32"
    and "\<forall>e \<in> set (index self). length (contents e) < 2 ^ 32 \<and> length (path e) < 2 ^ 32
                      \<and> encode (path e) \<noteq> None"
  shows "\<exists>bs. save self = (Some bs, None)"
proof -
  have nonneg: "0 \<le> index_size self"
    using assms(1) by linarith
  have "\<forall>v \<in> set (slot_values es off). off \<le> v" if "0 \<le> off" for es off
    using that
  proof (induction es arbitrary: off)
    case Nil
    then show ?case by simp
  next
    case (Cons e es)
    have "0 \<le> off + size_entry e"
      using Cons.prems by (simp add: size_entry_def)
    from Cons.IH [OF this] show ?case
      by (auto simp: size_entry_def)
  qed
  from this [of "4 + 4 * index_size self" "index self"] nonneg assms(3)
  have "\<forall>v \<in> set (slot_values (index self) (4 + 4 * index_size self)). 0 \<le> v \<and> v < 2 ^ 32"
    by auto
  from write_offsets_total [OF this, of "le32 (nat (index_size self))"]
  obtain f1 where f1: "write_offsets (index self) (4 + 4 * index_size self)
                         (le32 (nat (index_size self))) = (f1, None)"
    by blast
  from write_entries_total [OF assms(4),
      of "f1 @ replicate (4 * nat (index_size self - int (length (index self)))) 0"]
  obtain f3 where f3: "write_entries (index self)
      (f1 @ replicate (4 * nat (index_size self - int (length (index self)))) 0) = (f3, None)"
    by blast
  have "save self = (Some f3, None)"
    using assms(1,2) nonneg f1 f3 by (simp add: save_def pack_L_def)
  then show ?thesis
    by blast
qed

section \<open>Reading back what \<open>save\<close> has written\<close>

lemma read_at:
  "drop k (data f) = A @ R \<Longrightarrow> read (length A) (seek k f) = (A, f\<lparr>pos := k + length A\<rparr>)"
  by (simp add: read_def seek_def Let_def)

lemma read_next:
  "drop (pos f) (data f) = A @ R \<Longrightarrow> read (length A) f = (A, f\<lparr>pos := pos f + length A\<rparr>)"
  by (simp add: read_def Let_def)

lemma drop_past: "drop k xs = A @ R \<Longrightarrow> drop (k + length A) xs = R"
  by (metis add.commute append_eq_conv_conj drop_drop)

lemma load_slot_entry:
  assumes slot: "drop k (data f) = le32 off @ S"
    and off: "0 < off" "off < 2 ^ 32"
    and rec: "drop off (data f) = entry_record e @ T"
    and bounds: "length (contents e) < 2 ^ 32" "length (path e) < 2 ^ 32"
    and ascii: "is_ascii (path e)"
  shows "\<exists>f'. load_slot k self f = ((self\<lparr>index := index self @ [e]\<rparr>, f'), None)
              \<and> data f' = data f"
proof -
  define pb :: "byte list" where "pb = map of_nat (path e)"
  define h where "h = le32 (length (contents e)) @ le32 (length (path e))"
  have enc: "encode (path e) = Some pb"
    unfolding pb_def by (rule encode_ascii [OF ascii])
  have dec: "decode pb = Some (path e)"
    unfolding pb_def by (rule decode_ascii [OF ascii])
  have lpb: "length pb = length (path e)"
    by (simp add: pb_def)
  have lh: "length h = 8"
    by (simp add: h_def)
  have er: "entry_record e = h @ pb @ contents e"
    by (simp add: entry_record_def enc h_def)
  define f1 where "f1 = f\<lparr>pos := k + 4\<rparr>"
  define f2 where "f2 = f1\<lparr>pos := off + 8\<rparr>"
  define f3 where "f3 = f2\<lparr>pos := off + 8 + length (path e)\<rparr>"
  define f4 where "f4 = f3\<lparr>pos := off + 8 + length (path e) + length (contents e)\<rparr>"
  have r1: "read 4 (seek k f) = (le32 off, f1)"
    using read_at [OF slot] by (simp add: f1_def)
  have d2: "drop off (data f1) = h @ (pb @ contents e @ T)"
    using rec by (simp add: f1_def er)
  have r2: "read 8 (seek off f1) = (h, f2)"
    using read_at [OF d2] by (simp add: f2_def lh)
  have d3: "drop (pos f2) (data f2) = pb @ (contents e @ T)"
    using drop_past [OF d2] by (simp add: f2_def lh)
  have r3: "read (length (path e)) f2 = (pb, f3)"
    using read_next [OF d3] by (simp add: f3_def f2_def lpb)
  have d4: "drop (pos f3) (data f3) = contents e @ T"
    using drop_past [OF d3] by (simp add: f3_def f2_def lpb)
  have r4: "read (length (contents e)) f3 = (contents e, f4)"
    using read_next [OF d4] by (simp add: f4_def f3_def)
  have u1: "unpack_L (le32 off) = Inr off"
    by (rule unpack_le32 [OF off(2)])
  have u2: "unpack_LL h = Inr (length (contents e), length (path e))"
    unfolding h_def by (rule unpack_LL_le32 [OF bounds])
  have "load_slot k self f = ((self\<lparr>index := index self @ [e]\<rparr>, f4), None)"
    by (simp add: load_slot_def r1 u1 off r2 u2 r3 dec r4)
  moreover have "data f4 = data f"
    by (simp add: f4_def f3_def f2_def f1_def)
  ultimately show ?thesis
    by blast
qed

lemma load_slot_empty:
  assumes slot: "drop k (data f) = replicate 4 0 @ S"
  shows "\<exists>f'. load_slot k self f = ((self, f'), None) \<and> data f' = data f"
proof -
  have "replicate 4 (0::byte) = [0, 0, 0, 0]"
    by (simp add: numeral_eq_Suc)
  then have z: "unpack_L (replicate 4 0) = Inr 0"
    by (simp add: unpack_L_def)
  have "read 4 (seek k f) = (replicate 4 0, f\<lparr>pos := k + 4\<rparr>)"
    using read_at [OF slot] by simp
  then have "load_slot k self f = ((self, f\<lparr>pos := k + 4\<rparr>), None)"
    by (simp add: load_slot_def z)
  then show ?thesis
    by simp
qed

lemma offsets_Suc:
  "map (\<lambda>i. k + 4 * i) [0..<Suc m] = k # map (\<lambda>i. (k + 4) + 4 * i) [0..<m]"
proof -
  have "[0..<Suc m] = 0 # map Suc [0..<m]"
    by (simp add: upt_conv_Cons map_Suc_upt)
  then show ?thesis
    by (simp add: comp_def del: upt_Suc)
qed

lemma size_entry_ascii:
  "is_ascii (path e) \<Longrightarrow> size_entry e = int (length (entry_record e))"
  by (simp add: size_entry_def entry_record_def encode_ascii)

lemma load_loop_append:
  "load_loop xs self f = ((s1, f1), None) \<Longrightarrow> load_loop (xs @ ys) self f = load_loop ys s1 f1"
  by (induction xs arbitrary: self f) (auto split: prod.splits option.splits)

lemma load_loop_entries:
  assumes "drop k (data f) = concat (map (\<lambda>v. le32 (nat v)) (slot_values es off)) @ S"
    and "drop (nat off) (data f) = concat (map entry_record es) @ T"
    and "0 < off"
    and "\<forall>v \<in> set (slot_values es off). v < 2 ^ 32"
    and "\<forall>e \<in> set es. length (contents e) < 2 ^ 32 \<and> length (path e) < 2 ^ 32
                      \<and> is_ascii (path e)"
  shows "\<exists>f'. load_loop (map (\<lambda>i. k + 4 * i) [0..<length es]) self f
                 = ((self\<lparr>index := index self @ es\<rparr>, f'), None)
              \<and> data f' = data f"
  using assms
proof (induction es arbitrary: k off self f S)
  case Nil
  then show ?case by simp
next
  case (Cons e es)
  let ?off' = "off + size_entry e"
  have sz: "size_entry e = int (length (entry_record e))"
    using Cons.prems(5) by (simp add: size_entry_ascii)
  have slot: "drop k (data f) = le32 (nat off)
                @ (concat (map (\<lambda>v. le32 (nat v)) (slot_values es ?off')) @ S)"
    using Cons.prems(1) by simp
  have rec: "drop (nat off) (data f) = entry_record e @ (concat (map entry_record es) @ T)"
    using Cons.prems(2) by simp
  have offb: "0 < nat off" "nat off < 2 ^ 32"
    using Cons.prems(3,4) by auto
  from load_slot_entry [OF slot offb rec, of self] Cons.prems(5)
  obtain f1 where step: "load_slot k self f = ((self\<lparr>index := index self @ [e]\<rparr>, f1), None)"
    and d1: "data f1 = data f"
    by auto
  have slot': "drop (k + 4) (data f1) = concat (map (\<lambda>v. le32 (nat v)) (slot_values es ?off')) @ S"
    using drop_past [OF slot] by (simp add: d1)
  have "nat ?off' = nat off + length (entry_record e)"
    using Cons.prems(3) by (simp add: sz nat_add_distrib)
  then have rec': "drop (nat ?off') (data f1) = concat (map entry_record es) @ T"
    using drop_past [OF rec] by (simp add: d1)
  have pos': "0 < ?off'"
    using Cons.prems(3) by (simp add: sz)
  have vs': "\<forall>v \<in> set (slot_values es ?off'). v < 2 ^ 32"
    using Cons.prems(4) by simp
  have es': "\<forall>e \<in> set es. length (contents e) < 2 ^ 32 \<and> length (path e) < 2 ^ 32
                      \<and> is_ascii (path e)"
    using Cons.prems(5) by simp
  from Cons.IH [OF slot' rec' pos' vs' es', of "self\<lparr>index := index self @ [e]\<rparr>"]
  obtain f2 where rest: "load_loop (map (\<lambda>i. k + 4 + 4 * i) [0..<length es])
        (self\<lparr>index := index self @ [e]\<rparr>) f1 = ((self\<lparr>index := index self @ e # es\<rparr>, f2), None)"
    and d2: "data f2 = data f1"
    by auto
  have "load_loop (map (\<lambda>i. k + 4 * i) [0..<length (e # es)]) self f
          = ((self\<lparr>index := index self @ e # es\<rparr>, f2), None)"
    unfolding length_Cons offsets_Suc by (simp add: step rest)
  with d1 d2 show ?case
    by auto
qed

lemma load_loop_empty_slots:
  "drop k (data f) = replicate (4 * m) 0 @ S \<Longrightarrow>
     \<exists>f'. load_loop (map (\<lambda>i. k + 4 * i) [0..<m]) self f = ((self, f'), None)
          \<and> data f' = data f"
proof (induction m arbitrary: k f)
  case 0
  then show ?case by simp
next
  case (Suc m)
  have "replicate (4 * Suc m) (0::byte) = replicate 4 0 @ replicate (4 * m) 0"
    by (simp add: replicate_add [symmetric])
  with Suc.prems have slot: "drop k (data f) = replicate 4 0 @ (replicate (4 * m) 0 @ S)"
    by simp
  from load_slot_empty [OF slot, of self]
  obtain f1 where step: "load_slot k self f = ((self, f1), None)" and d1: "data f1 = data f"
    by auto
  have "drop (k + 4) (data f1) = replicate (4 * m) 0 @ S"
    using drop_past [OF slot] by (simp add: d1)
  from Suc.IH [OF this]
  obtain f2 where rest: "load_loop (map (\<lambda>i. k + 4 + 4 * i) [0..<m]) self f1 = ((self, f2), None)"
    and d2: "data f2 = data f1"
    by auto
  have "load_loop (map (\<lambda>i. k + 4 * i) [0..<Suc m]) self f = ((self, f2), None)"
    unfolding offsets_Suc by (simp add: step rest)
  with d1 d2 show ?case
    by auto
qed

lemma index_offsets_split:
  assumes "n \<le> N"
  shows "index_offsets N = map (\<lambda>i. 4 + 4 * i) [0..<n] @ map (\<lambda>i. (4 + 4 * n) + 4 * i) [0..<N - n]"
proof -
  have "[0..<N] = [0..<n] @ [n..<N]"
    using assms by (metis le_add_diff_inverse upt_add_eq_append zero_le)
  moreover have "[n..<N] = map (\<lambda>i. i + n) [0..<N - n]"
    using assms by (simp add: map_add_upt)
  ultimately show ?thesis
    by (simp add: index_offsets_def comp_def algebra_simps)
qed

lemma length_slot_values [simp]: "length (slot_values es off) = length es"
  by (induction es arbitrary: off) simp_all

lemma length_concat_le32:
  "length (concat (map (\<lambda>v. le32 (nat v)) vs)) = 4 * length vs"
  by (induction vs) simp_all

lemmas save_eval = save_def pack_L_def pack_LL_def le32_def size_entry_def encode_cp_def

lemmas load_eval = load_def load_slot_def index_offsets_def read_def seek_def unpack_L_def
  unpack_LL_def lead_info_def cont_ok_def Let_def

lemma replicate_8: "replicate 8 x = [x, x, x, x, x, x, x, x]"
  by (simp add: eval_nat_numeral)

section \<open>Round trip of \<open>save\<close> and \<open>load\<close>\<close>

text \<open>
  Claim C1, as amended.  Let \<open>save\<close> on an object end without an exception, having
  written the bytes \<open>bs\<close>, and let every path of the object consist of ASCII characters
  only (so that the number of its characters is the number of its UTF-8 bytes).  Then
  \<open>load\<close> of \<open>bs\<close>, into any object, ends without an exception and leaves the same
  entries in the same order and the same index size.  That \<open>save\<close> ends without an
  exception includes that the entries are no more than the index size.
\<close>

theorem load_save_roundtrip:
  assumes sv: "save self = (Some bs, None)"
    and ascii: "list_all (\<lambda>e. is_ascii (path e)) (index self)"
  shows "load other bs = (self, None)"
proof -
  define N where "N = nat (index_size self)"
  define es where "es = index self"
  define H where "H = le32 N"
  define Os where "Os = concat (map (\<lambda>v. le32 (nat v)) (slot_values es (4 + 4 * index_size self)))"
  define Z :: "byte list" where "Z = replicate (4 * (N - length es)) 0"
  define R where "R = concat (map entry_record es)"
  note ok = save_ok [OF sv]
  have N: "index_size self = int N" and N32: "N < 2 ^ 32" and nN: "length es \<le> N"
    using ok(1,2,3) by (simp_all add: N_def es_def)
  have bs: "bs = H @ Os @ Z @ R"
    using ok(4) by (simp add: H_def Os_def Z_def R_def N_def es_def)
  have lH: "length H = 4" and lO: "length Os = 4 * length es" and lZ: "length Z = 4 * (N - length es)"
    by (simp_all add: H_def Os_def Z_def length_concat_le32)
  define self1 where "self1 = other\<lparr>index := [], index_size := int N\<rparr>"
  define f1 where "f1 = \<lparr>data = bs, pos = 4\<rparr>"
  have r0: "read 4 \<lparr>data = bs, pos = 0\<rparr> = (H, f1)"
    using read_next [of "\<lparr>data = bs, pos = 0\<rparr>" H "Os @ Z @ R"]
    by (simp add: bs lH f1_def)
  have u0: "unpack_L H = Inr N"
    unfolding H_def by (rule unpack_le32 [OF N32])
  have slots: "drop 4 (data f1) = Os @ (Z @ R)"
    by (simp add: f1_def bs lH)
  have "nat (4 + 4 * index_size self) = length (H @ Os @ Z)"
    using nN by (simp add: N lH lO lZ)
  moreover have "drop (length (H @ Os @ Z)) ((H @ Os @ Z) @ R) = R"
    by (metis append_eq_conv_conj)
  ultimately have recs: "drop (nat (4 + 4 * index_size self)) (data f1) = R @ []"
    by (simp add: f1_def bs)
  have pos: "0 < 4 + 4 * index_size self"
    by (simp add: N)
  have vs: "\<forall>v \<in> set (slot_values es (4 + 4 * index_size self)). v < 2 ^ 32"
    using ok(5) by (simp add: es_def)
  have eb: "\<forall>e \<in> set es. length (contents e) < 2 ^ 32 \<and> length (path e) < 2 ^ 32
                      \<and> is_ascii (path e)"
    using ok(6) ascii by (simp add: es_def list_all_iff)
  from load_loop_entries [OF slots [unfolded Os_def] recs [unfolded R_def] pos vs eb, of self1]
  obtain f2 where l1: "load_loop (map (\<lambda>i. 4 + 4 * i) [0..<length es]) self1 f1
                         = ((self1\<lparr>index := index self1 @ es\<rparr>, f2), None)"
    and d2: "data f2 = data f1"
    by auto
  have "drop (4 + 4 * length es) (data f2) = Z @ R"
    using lH lO by (simp add: d2 f1_def bs)
  from load_loop_empty_slots [OF this [unfolded Z_def], of "self1\<lparr>index := index self1 @ es\<rparr>"]
  obtain f3 where l2: "load_loop (map (\<lambda>i. 4 + 4 * length es + 4 * i) [0..<N - length es])
                         (self1\<lparr>index := index self1 @ es\<rparr>) f2
                         = ((self1\<lparr>index := index self1 @ es\<rparr>, f3), None)"
    by auto
  have loop: "load_loop (index_offsets N) self1 f1 = ((self1\<lparr>index := index self1 @ es\<rparr>, f3), None)"
    unfolding index_offsets_split [OF nN] load_loop_append [OF l1] by (rule l2)
  have "load other bs = (self1\<lparr>index := index self1 @ es\<rparr>, None)"
    by (simp add: load_def r0 u0 loop self1_def [symmetric])
  moreover have "self1\<lparr>index := index self1 @ es\<rparr> = self"
    by (simp add: self1_def es_def N [symmetric])
  ultimately show ?thesis
    by simp
qed

theorem load_save_roundtrip_witness:
  "save one_entry = (Some one_entry_bytes, None)
   \<and> list_all (\<lambda>e. is_ascii (path e)) (index one_entry)
   \<and> load FTLPack_init one_entry_bytes = (one_entry, None)"
proof -
  have a: "save one_entry = (Some one_entry_bytes, None)"
    by (simp add: one_entry_def one_entry_bytes_def pystr_of_def bytes_of_def save_eval
          replicate_8)
  have b: "list_all (\<lambda>e. is_ascii (path e)) (index one_entry)"
    by (simp add: one_entry_def is_ascii_def pystr_of_def)
  from load_save_roundtrip [OF a b, of FTLPack_init] a b show ?thesis
    by simp
qed

text \<open>
  The claim as it was stated fails in two ways.  An index size of \<open>2 ** 32\<close> makes
  \<open>struct.pack\<close> raise after the file was opened: the file is empty and \<open>load\<close> of it
  raises.  A path with a character outside ASCII is saved without an exception, and
  \<open>load\<close> of the result yields another path and other contents.
\<close>

theorem load_save_roundtrip_counterexample:
  "save huge_capacity = (Some [], Some StructError)
   \<and> load FTLPack_init [] = (FTLPack_init, Some StructError)
   \<and> save umlaut_pack = (Some umlaut_bytes, None)
   \<and> load FTLPack_init umlaut_bytes
       = (\<lparr>index = [\<lparr>path = [0xFC, 0x2E, 0x74, 0x78], contents = [0x74]\<rparr>], index_size = 1\<rparr>, None)
   \<and> fst (load FTLPack_init umlaut_bytes) \<noteq> umlaut_pack"
proof -
  have a: "save huge_capacity = (Some [], Some StructError)"
    by (simp add: huge_capacity_def save_def pack_L_def)
  have b: "load FTLPack_init [] = (FTLPack_init, Some StructError)"
    by (simp add: FTLPack_init_def load_eval)
  have c: "save umlaut_pack = (Some umlaut_bytes, None)"
    by (simp add: umlaut_pack_def umlaut_bytes_def bytes_of_def save_eval)
  have d: "load FTLPack_init umlaut_bytes
       = (\<lparr>index = [\<lparr>path = [0xFC, 0x2E, 0x74, 0x78], contents = [0x74]\<rparr>], index_size = 1\<rparr>, None)"
    by (simp add: FTLPack_init_def umlaut_bytes_def load_eval)
  have e: "fst (load FTLPack_init umlaut_bytes) \<noteq> umlaut_pack"
    by (simp add: d umlaut_pack_def)
  from a b c d e show ?thesis
    by blast
qed

subsection \<open>The round trip holds for ASCII paths only\<close>

text \<open>
  When \<open>save\<close> has raised nothing and \<open>load\<close> of what it wrote gives the object back,
  every path of the object is ASCII: at the first entry with another path, \<open>load\<close>
  reads fewer path bytes than \<open>save\<close> wrote, and these cannot decode to the path.
\<close>

lemma slot_values_append:
  "slot_values (xs @ ys) off
     = slot_values xs off @ slot_values ys (off + sum_list (map size_entry xs))"
  by (induction xs arbitrary: off) (simp_all add: add.assoc)

lemma sum_size_ascii:
  "\<forall>e \<in> set es. is_ascii (path e) \<Longrightarrow>
     sum_list (map size_entry es) = int (length (concat (map entry_record es)))"
  by (induction es) (simp_all add: size_entry_ascii)

lemma load_loop_extends:
  "load_loop ks s f = ((s', f'), r) \<Longrightarrow> \<exists>ext. index s' = index s @ ext"
proof (induction ks arbitrary: s f)
  case Nil
  then show ?case by simp
next
  case (Cons k ks)
  obtain s1 f1 r1 where step: "load_slot k s f = ((s1, f1), r1)"
    by (metis prod.exhaust)
  have one: "\<exists>ext. index s1 = index s @ ext"
    using step
    by (auto simp: load_slot_def read_def seek_def Let_def
             split: sum.splits prod.splits option.splits if_splits)
  show ?case
  proof (cases r1)
    case None
    with step Cons.prems have "load_loop ks s1 f1 = ((s', f'), r)"
      by simp
    from Cons.IH [OF this] one show ?thesis
      by auto
  next
    case (Some e)
    with step Cons.prems have "s' = s1"
      by simp
    with one show ?thesis
      by simp
  qed
qed

lemma load_slot_record:
  assumes slot: "drop k (data f) = le32 off @ S"
    and off: "0 < off" "off < 2 ^ 32"
    and rec: "drop off (data f) = le32 lc @ le32 lp @ B"
    and bounds: "lc < 2 ^ 32" "lp < 2 ^ 32"
  shows "decode (take lp B) = None \<Longrightarrow> snd (load_slot k self f) = Some UnicodeDecodeError"
    and "decode (take lp B) = Some p \<Longrightarrow>
           \<exists>f' c. load_slot k self f
                    = ((self\<lparr>index := index self @ [\<lparr>path = p, contents = c\<rparr>]\<rparr>, f'), None)"
proof -
  define h where "h = le32 lc @ le32 lp"
  have lh: "length h = 8"
    by (simp add: h_def)
  define f1 where "f1 = f\<lparr>pos := k + 4\<rparr>"
  define f2 where "f2 = f1\<lparr>pos := off + 8\<rparr>"
  have r1: "read 4 (seek k f) = (le32 off, f1)"
    using read_at [OF slot] by (simp add: f1_def)
  have d2: "drop off (data f1) = h @ B"
    using rec by (simp add: f1_def h_def)
  have r2: "read 8 (seek off f1) = (h, f2)"
    using read_at [OF d2] by (simp add: f2_def lh)
  have d3: "drop (pos f2) (data f2) = B"
    using drop_past [OF d2] by (simp add: f2_def lh)
  define f3 where "f3 = f2\<lparr>pos := pos f2 + length (take lp B)\<rparr>"
  have r3: "read lp f2 = (take lp B, f3)"
    by (simp add: read_def Let_def d3 f3_def)
  obtain c f4 where r4: "read lc f3 = (c, f4)"
    by (metis surj_pair)
  have u1: "unpack_L (le32 off) = Inr off"
    by (rule unpack_le32 [OF off(2)])
  have u2: "unpack_LL h = Inr (lc, lp)"
    unfolding h_def by (rule unpack_LL_le32 [OF bounds])
  show "decode (take lp B) = None \<Longrightarrow> snd (load_slot k self f) = Some UnicodeDecodeError"
    by (simp add: load_slot_def r1 u1 off r2 u2 r3)
  show "decode (take lp B) = Some p \<Longrightarrow>
           \<exists>f' c. load_slot k self f
                    = ((self\<lparr>index := index self @ [\<lparr>path = p, contents = c\<rparr>]\<rparr>, f'), None)"
    by (auto simp: load_slot_def r1 u1 off r2 u2 r3 r4)
qed

lemma load_via_loop:
  assumes "unpack_L (take 4 bs) = Inr n"
  shows "load other bs
           = (case load_loop (index_offsets n) (other\<lparr>index := [], index_size := int n\<rparr>)
                     \<lparr>data = bs, pos = length (take 4 bs)\<rparr> of
                ((s, f), r) \<Rightarrow> (s, r))"
  using assms by (simp add: load_def read_def Let_def split: prod.splits option.splits)

lemma roundtrip_needs_ascii:
  assumes sv: "save self = (Some bs, None)" and ld: "load other bs = (self, None)"
  shows "list_all (\<lambda>e. is_ascii (path e)) (index self)"
proof (rule ccontr)
  assume "\<not> list_all (\<lambda>e. is_ascii (path e)) (index self)"
  then have "\<exists>e \<in> set (index self). \<not> is_ascii (path e)"
    by (simp add: list_all_iff)
  from split_list_first_prop [OF this]
  obtain pre e post where es: "index self = pre @ e # post"
    and ne: "\<not> is_ascii (path e)" and pre: "\<forall>y \<in> set pre. is_ascii (path y)"
    by auto
  note ok = save_ok [OF sv]
  define N where "N = nat (index_size self)"
  define off0 where "off0 = 4 + 4 * index_size self"
  define offj where "offj = off0 + sum_list (map size_entry pre)"
  define j where "j = length pre"
  define H where "H = le32 N"
  define Opre where "Opre = concat (map (\<lambda>v. le32 (nat v)) (slot_values pre off0))"
  define Opost where
    "Opost = concat (map (\<lambda>v. le32 (nat v)) (slot_values post (offj + size_entry e)))"
  define Z :: "byte list" where "Z = replicate (4 * (N - length (index self))) 0"
  define Rpre where "Rpre = concat (map entry_record pre)"
  define Rpost where "Rpost = concat (map entry_record post)"
  obtain U where U: "encode (path e) = Some U"
    using ok(6) es by auto
  define lp where "lp = length (path e)"
  define lc where "lc = length (contents e)"
  have lpU: "lp < length U"
    using encode_length [OF U] encode_length_eq_iff [OF U] ne by (simp add: lp_def)
  have er: "entry_record e = le32 lc @ le32 lp @ U @ contents e"
    by (simp add: entry_record_def U lc_def lp_def)
  have N: "index_size self = int N" and N32: "N < 2 ^ 32" and nN: "length (index self) \<le> N"
    using ok(1,2,3) by (simp_all add: N_def)
  have jN: "j < N"
    using nN es by (simp add: j_def)
  have sv_split: "slot_values (pre @ e # post) (4 + 4 * index_size self)
      = slot_values pre off0 @ offj # slot_values post (offj + size_entry e)"
    by (simp add: slot_values_append offj_def off0_def)
  have bs: "bs = H @ Opre @ le32 (nat offj) @ Opost @ Z @ Rpre @ entry_record e @ Rpost"
    using ok(4) by (simp add: es sv_split H_def Opre_def Opost_def Z_def
        Rpre_def Rpost_def N_def)
  have lH: "length H = 4" and lOpre: "length Opre = 4 * j"
    and lOpost: "length Opost = 4 * length post"
    and lZ: "length Z = 4 * (N - length (index self))"
    by (simp_all add: H_def Opre_def Opost_def Z_def length_concat_le32 j_def)
  define self1 where "self1 = other\<lparr>index := [], index_size := int N\<rparr>"
  define f1 where "f1 = \<lparr>data = bs, pos = 4\<rparr>"
  have t4: "take 4 bs = H"
    by (simp add: bs lH)
  have u0: "unpack_L (take 4 bs) = Inr N"
    unfolding t4 H_def by (rule unpack_le32 [OF N32])
  have ld': "load other bs = (case load_loop (index_offsets N) self1 f1 of ((s, f), r) \<Rightarrow> (s, r))"
    using load_via_loop [OF u0, of other] by (simp add: self1_def f1_def t4 lH)
  \<comment> \<open>the slots of the entries before \<open>e\<close>\<close>
  have slots: "drop 4 (data f1) = Opre @ (le32 (nat offj) @ Opost @ Z @ Rpre @ entry_record e @ Rpost)"
    by (simp add: f1_def bs lH)
  have "nat off0 = length (H @ Opre @ le32 (nat offj) @ Opost @ Z)"
    using nN by (simp add: off0_def N lH lOpre lOpost lZ es j_def)
  moreover have "drop (length (H @ Opre @ le32 (nat offj) @ Opost @ Z))
                   ((H @ Opre @ le32 (nat offj) @ Opost @ Z) @ Rpre @ entry_record e @ Rpost)
                 = Rpre @ entry_record e @ Rpost"
    by (metis append_eq_conv_conj)
  ultimately have recs: "drop (nat off0) (data f1) = Rpre @ (entry_record e @ Rpost)"
    by (simp add: f1_def bs)
  have pos0: "0 < off0"
    by (simp add: off0_def N)
  have vs: "\<forall>v \<in> set (slot_values pre off0). v < 2 ^ 32"
    using ok(5) by (simp add: es sv_split)
  have eb: "\<forall>e \<in> set pre. length (contents e) < 2 ^ 32 \<and> length (path e) < 2 ^ 32
                      \<and> is_ascii (path e)"
    using ok(6) pre by (simp add: es)
  from load_loop_entries [OF slots [unfolded Opre_def] recs [unfolded Rpre_def] pos0 vs eb, of self1]
  obtain f2 where l1: "load_loop (map (\<lambda>i. 4 + 4 * i) [0..<j]) self1 f1
                         = ((self1\<lparr>index := index self1 @ pre\<rparr>, f2), None)"
    and d2: "data f2 = data f1"
    by (auto simp: j_def)
  define s2 where "s2 = self1\<lparr>index := index self1 @ pre\<rparr>"
  have is2: "index s2 = pre"
    by (simp add: s2_def self1_def)
  \<comment> \<open>the slot of \<open>e\<close>\<close>
  obtain m where m: "N - j = Suc m"
    using jN by (metis Suc_diff_Suc)
  have offs: "index_offsets N = map (\<lambda>i. 4 + 4 * i) [0..<j]
                @ (4 + 4 * j) # map (\<lambda>i. (4 + 4 * j + 4) + 4 * i) [0..<m]"
    using index_offsets_split [of j N] jN offsets_Suc [of "4 + 4 * j" m] by (simp add: m)
  have loop: "load_loop (index_offsets N) self1 f1
                = load_loop ((4 + 4 * j) # map (\<lambda>i. (4 + 4 * j + 4) + 4 * i) [0..<m]) s2 f2"
    unfolding offs s2_def by (rule load_loop_append [OF l1])
  have slotj: "drop (4 + 4 * j) (data f2) = le32 (nat offj) @ (Opost @ Z @ Rpre @ entry_record e @ Rpost)"
    using drop_past [OF slots] by (simp add: d2 lOpre)
  have "0 \<le> sum_list (map size_entry pre)"
    by (rule sum_list_nonneg) (auto simp: size_entry_def)
  then have "0 < offj"
    using pos0 by (simp add: offj_def)
  moreover have "offj < 2 ^ 32"
    using ok(5) by (simp add: es sv_split)
  ultimately have offj_b: "0 < nat offj" "nat offj < 2 ^ 32"
    by simp_all
  have "nat offj = nat off0 + length Rpre"
    using pos0 sum_size_ascii [OF pre] by (simp add: offj_def Rpre_def nat_add_distrib)
  then have recj: "drop (nat offj) (data f2) = le32 lc @ le32 lp @ (U @ contents e @ Rpost)"
    using drop_past [OF recs] by (simp add: d2 er)
  have lb: "lc < 2 ^ 32" "lp < 2 ^ 32"
    using ok(6) es by (simp_all add: lc_def lp_def)
  have tk: "take lp (U @ contents e @ Rpost) = take lp U"
    using lpU by simp
  note slot_cases = load_slot_record [where self = s2, OF slotj offj_b recj lb, unfolded tk]
  show False
  proof (cases "decode (take lp U)")
    case None
    from slot_cases(1) [OF None]
    have "snd (load_slot (4 + 4 * j) s2 f2) = Some UnicodeDecodeError" .
    then have "snd (load_loop (index_offsets N) self1 f1) = Some UnicodeDecodeError"
      unfolding loop by (auto split: prod.splits option.splits)
    with ld ld' show False
      by (auto split: prod.splits)
  next
    case (Some p)
    from slot_cases(2) [OF Some]
    obtain f3 c where step: "load_slot (4 + 4 * j) s2 f2
        = ((s2\<lparr>index := index s2 @ [\<lparr>path = p, contents = c\<rparr>]\<rparr>, f3), None)"
      by blast
    have "p \<noteq> path e"
    proof
      assume "p = path e"
      with decode_length [OF Some] lpU have "is_ascii (path e)"
        by (simp add: lp_def)
      with ne show False ..
    qed
    obtain s' f' r where rest: "load_loop (map (\<lambda>i. (4 + 4 * j + 4) + 4 * i) [0..<m])
        (s2\<lparr>index := index s2 @ [\<lparr>path = p, contents = c\<rparr>]\<rparr>) f3 = ((s', f'), r)"
      by (metis prod.exhaust)
    from load_loop_extends [OF rest] is2
    obtain ext where ext: "index s' = pre @ \<lparr>path = p, contents = c\<rparr> # ext"
      by auto
    have "load_loop (index_offsets N) self1 f1 = ((s', f'), r)"
      unfolding loop using step rest by simp
    with ld ld' have "s' = self"
      by simp
    with ext es have "e = \<lparr>path = p, contents = c\<rparr>"
      by simp
    then have "path e = p"
      by simp
    with \<open>p \<noteq> path e\<close> show False
      by simp
  qed
qed

section \<open>The concrete scenario\<close>

text \<open>
  Claim C7.  For the entries \<open>("a.txt", b"hi")\<close> and \<open>("b/c.txt", b"bye")\<close> with an index
  size of 2, \<open>save\<close> writes exactly: the header \<open>02 00 00 00\<close>, the slots 12 and 27 as
  little-endian numbers, the record of content length 2 and path length 5 with \<open>a.txt\<close>
  and \<open>hi\<close>, and the record of content length 3 and path length 7 with \<open>b/c.txt\<close> and
  \<open>bye\<close>.  \<open>load\<close> of these bytes, into any object, leaves the two entries in this order.
\<close>

theorem concrete_scenario:
  "save scenario = (Some scenario_bytes, None) \<and> load self scenario_bytes = (scenario, None)"
proof
  show "save scenario = (Some scenario_bytes, None)"
    by (simp add: scenario_def scenario_bytes_def pystr_of_def bytes_of_def save_eval)
  show "load self scenario_bytes = (scenario, None)"
    by (simp add: scenario_def scenario_bytes_def pystr_of_def bytes_of_def load_eval)
qed

section \<open>An index that is too small\<close>

text \<open>
  Claim C4.  When an object has more entries than its index size, \<open>save\<close> raises
  \<open>FTLPackError\<close> with a message that carries the number of entries and the index size,
  and the target file is never opened, so nothing is written to it.
\<close>

theorem save_index_too_small:
  "int (length (index self)) > index_size self \<Longrightarrow>
     save self = (None, Some (FTLPackError
        (''Index ('' @ str_int (int (length (index self))) @ '') too small for ''
         @ str_int (index_size self) @ '' entries.'')))"
  by (simp add: save_def)

theorem save_index_too_small_witness:
  "int (length (index over_full)) > index_size over_full
   \<and> save over_full = (None, Some (FTLPackError ''Index (2) too small for 1 entries.''))"
  using save_index_too_small [of over_full]
  by (simp add: over_full_def str_int_def str_nat.simps)

section \<open>\<open>load\<close> and the state of the object before the call\<close>

text \<open>
  Claim C10.  When \<open>load\<close> of a stream into an object ends without an exception, so does
  \<open>load\<close> of the same stream into any other object, and both objects then hold the same
  entries and the same index size: what the objects held before has no effect.
\<close>

theorem load_ignores_prior_state:
  "load p bs = (p', None) \<Longrightarrow>
     \<exists>q'. load q bs = (q', None) \<and> index q' = index p' \<and> index_size q' = index_size p'"
proof -
  assume a: "load p bs = (p', None)"
  then obtain n where n: "unpack_L (take 4 bs) = Inr n"
    by (cases "unpack_L (take 4 bs)") (auto simp: load_def read_def Let_def)
  have "load q bs = load p bs"
    by (cases p, cases q) (simp add: load_def read_def Let_def n)
  with a show ?thesis
    by simp
qed

theorem load_ignores_prior_state_witness:
  "load over_full scenario_bytes = (scenario, None)
   \<and> (\<exists>q'. load FTLPack_init scenario_bytes = (q', None)
           \<and> index q' = index scenario \<and> index_size q' = index_size scenario)"
proof -
  have a: "load over_full scenario_bytes = (scenario, None)"
    by (simp add: scenario_def scenario_bytes_def pystr_of_def bytes_of_def load_eval)
  from load_ignores_prior_state [OF a, of FTLPack_init] a show ?thesis
    by simp
qed

section \<open>The index size that \<open>construct\<close> sets\<close>

lemma tree_construct:
  "construct tree_env self (pystr_of ''t'') m = (tree_pack (max 1 m), None)"
  by (simp add: construct_def tree_env_def tree_pack_def pystr_of_def replace_sep_def)

text \<open>
  Claim C9.  When \<open>construct\<close> ends without an exception, the index size of the object is
  the larger of the number of its entries and \<open>min_index\<close>, for every \<open>min_index\<close> and for
  its default 2048.
\<close>

theorem construct_index_size:
  "(construct os self root min_index = (s1, None) \<longrightarrow>
      index_size s1 = max (int (length (index s1))) min_index)
   \<and> (construct_default os self root = (s2, None) \<longrightarrow>
      index_size s2 = max (int (length (index s2))) 2048)"
  by (auto simp: construct_default_def construct_def Let_def split: prod.splits option.splits)

theorem construct_index_size_witness:
  "construct tree_env FTLPack_init (pystr_of ''t'') 0 = (tree_pack 1, None)
   \<and> index_size (tree_pack 1) = max (int (length (index (tree_pack 1)))) 0
   \<and> construct_default tree_env FTLPack_init (pystr_of ''t'') = (tree_pack 2048, None)
   \<and> index_size (tree_pack 2048) = max (int (length (index (tree_pack 2048)))) 2048"
proof -
  have a: "construct tree_env FTLPack_init (pystr_of ''t'') 0 = (tree_pack 1, None)"
    using tree_construct [of FTLPack_init 0] by simp
  have b: "construct_default tree_env FTLPack_init (pystr_of ''t'') = (tree_pack 2048, None)"
    using tree_construct [of FTLPack_init 2048] by (simp add: construct_default_def)
  from construct_index_size
         [of tree_env FTLPack_init "pystr_of ''t''" 0 "tree_pack 1" "tree_pack 2048"]
    a b show ?thesis
    by simp
qed

section \<open>Streams that end too early\<close>

lemma unpack_L_Inl: "unpack_L bs = Inl e \<Longrightarrow> e = StructError"
  by (auto simp: unpack_L_def split: list.splits)

lemma unpack_L_length: "unpack_L bs = Inr v \<Longrightarrow> length bs = 4"
  by (auto simp: unpack_L_def split: list.splits)

lemma unpack_LL_Inl: "unpack_LL bs = Inl e \<Longrightarrow> e = StructError"
  by (auto simp: unpack_LL_def split: if_splits sum.splits dest: unpack_L_Inl)

lemma unpack_LL_short: "length bs < 8 \<Longrightarrow> unpack_LL bs = Inl StructError"
  by (simp add: unpack_LL_def)

lemma load_slot_data: "load_slot k self f = ((s', f'), r) \<Longrightarrow> data f' = data f"
  by (auto simp: load_slot_def read_def seek_def Let_def
           split: sum.splits prod.splits option.splits if_splits)

lemma load_slot_cut:
  assumes "slot_cut (data f) k"
  shows "snd (load_slot k self f) = Some StructError"
proof (cases "unpack_L (take 4 (drop k (data f)))")
  case (Inl e)
  then have "e = StructError" by (rule unpack_L_Inl)
  with Inl show ?thesis
    by (simp add: load_slot_def read_def seek_def Let_def)
next
  case (Inr off)
  with assms have off: "0 < off" "length (data f) < off + 8"
    by (simp_all add: slot_cut_def u32_at_def)
  then have "unpack_LL (take 8 (drop off (data f))) = Inl StructError"
    by (intro unpack_LL_short) simp
  with Inr off show ?thesis
    by (simp add: load_slot_def read_def seek_def Let_def)
qed

lemma unpack_LL_length: "unpack_LL bs = Inr v \<Longrightarrow> length bs = 8"
  by (auto simp: unpack_LL_def split: if_splits)

lemma read_header_full:
  "unpack_LL (take 8 (drop off bs)) = Inr v \<Longrightarrow> min (length bs - off) 8 = 8"
  by (drule unpack_LL_length) simp

lemma load_slot_error:
  assumes "load_slot k self f = (sf, Some e)"
  shows "e = StructError \<or> (e = UnicodeDecodeError \<and> bad_path_at (data f) k)"
  using assms
  by (auto simp: load_slot_def read_def seek_def Let_def bad_path_at_def u32_at_def
                 read_header_full
           split: sum.splits prod.splits option.splits if_splits
           dest: unpack_L_Inl unpack_LL_Inl)

lemma load_loop_cut:
  "list_ex (slot_cut (data f)) ks \<Longrightarrow>
     snd (load_loop ks self f) = Some StructError
     \<or> (snd (load_loop ks self f) = Some UnicodeDecodeError
        \<and> list_ex (bad_path_at (data f)) ks)"
proof (induction ks arbitrary: self f)
  case Nil
  then show ?case by simp
next
  case (Cons k ks)
  obtain s' f' r where step: "load_slot k self f = ((s', f'), r)"
    by (metis prod.exhaust)
  show ?case
  proof (cases r)
    case None
    with step load_slot_cut [of f k self] have "\<not> slot_cut (data f) k"
      by auto
    with Cons.prems have "list_ex (slot_cut (data f)) ks"
      by simp
    moreover have d: "data f' = data f"
      using step by (rule load_slot_data)
    ultimately have "list_ex (slot_cut (data f')) ks"
      by simp
    from Cons.IH [OF this, of s'] d step None show ?thesis
      by auto
  next
    case (Some e)
    with step load_slot_error [of k self f "(s', f')" e] show ?thesis
      by auto
  qed
qed

text \<open>
  Claim C5, as amended.  Let a stream end before the header, before one of the index
  slots that the header announces, or before the two length fields of a record that a
  slot points to can be read in full.  Then \<open>load\<close> raises: \<open>struct.error\<close>, or
  \<open>UnicodeDecodeError\<close> when the path bytes of some record are not valid UTF-8.
  A path or a content array that the stream cuts short is not noticed: \<open>read\<close> returns
  the bytes that are there.
\<close>

theorem load_fixed_field_cut:
  assumes "fixed_field_cut bs"
  shows "snd (load self bs) = Some StructError
         \<or> (snd (load self bs) = Some UnicodeDecodeError \<and> has_bad_path bs)"
proof (cases "unpack_L (take 4 bs)")
  case (Inl e)
  then have "e = StructError" by (rule unpack_L_Inl)
  with Inl show ?thesis
    by (simp add: load_def read_def Let_def)
next
  case (Inr n)
  define self1 where "self1 = self\<lparr>index := [], index_size := int n\<rparr>"
  define f1 where "f1 = \<lparr>data = bs, pos = length (take 4 bs)\<rparr>"
  from Inr assms have "list_ex (slot_cut (data f1)) (index_offsets n)"
    by (simp add: fixed_field_cut_def u32_at_def f1_def)
  from load_loop_cut [OF this, of self1]
  have "snd (load_loop (index_offsets n) self1 f1) = Some StructError
     \<or> (snd (load_loop (index_offsets n) self1 f1) = Some UnicodeDecodeError
        \<and> has_bad_path bs)"
    using Inr by (simp add: has_bad_path_def u32_at_def f1_def)
  moreover have "snd (load self bs) = snd (load_loop (index_offsets n) self1 f1)"
    using Inr by (simp add: load_def read_def Let_def self1_def f1_def
                       split: prod.splits option.splits)
  ultimately show ?thesis
    by simp
qed

theorem load_fixed_field_cut_witness:
  "fixed_field_cut cut_record_header
   \<and> snd (load FTLPack_init cut_record_header) = Some StructError"
proof -
  have a: "fixed_field_cut cut_record_header"
    by (simp add: cut_record_header_def fixed_field_cut_def slot_cut_def u32_at_def
          unpack_L_def index_offsets_def)
  have b: "\<not> has_bad_path cut_record_header"
    by (simp add: cut_record_header_def has_bad_path_def bad_path_at_def u32_at_def
          unpack_L_def unpack_LL_def index_offsets_def)
  from load_fixed_field_cut [OF a, of FTLPack_init] a b show ?thesis
    by simp
qed

text \<open>
  The claim as it was stated fails for a record that announces five content bytes where
  two remain, and for one that announces five path bytes where two remain: \<open>load\<close>
  raises nothing and keeps the bytes that are there.  When the stream ends inside the
  length fields of the second record, \<open>load\<close> raises and the object keeps the first
  entry.
\<close>

theorem load_fixed_field_cut_counterexample:
  "u32_at short_contents 8 = Some 5 \<and> length (drop 17 short_contents) = 2
   \<and> load FTLPack_init short_contents
       = (\<lparr>index = [\<lparr>path = pystr_of ''a'', contents = [1, 2]\<rparr>], index_size = 1\<rparr>, None)
   \<and> u32_at short_path 12 = Some 5 \<and> length (drop 16 short_path) = 2
   \<and> load FTLPack_init short_path
       = (\<lparr>index = [\<lparr>path = pystr_of ''ab'', contents = []\<rparr>], index_size = 1\<rparr>, None)
   \<and> load FTLPack_init cut_second_record
       = (\<lparr>index = [\<lparr>path = pystr_of ''a'', contents = bytes_of ''x''\<rparr>], index_size = 2\<rparr>,
          Some StructError)"
proof -
  have a: "u32_at short_contents 8 = Some 5 \<and> length (drop 17 short_contents) = 2
    \<and> load FTLPack_init short_contents
       = (\<lparr>index = [\<lparr>path = pystr_of ''a'', contents = [1, 2]\<rparr>], index_size = 1\<rparr>, None)"
    by (simp add: short_contents_def FTLPack_init_def u32_at_def pystr_of_def bytes_of_def
          load_eval)
  have b: "u32_at short_path 12 = Some 5 \<and> length (drop 16 short_path) = 2
    \<and> load FTLPack_init short_path
       = (\<lparr>index = [\<lparr>path = pystr_of ''ab'', contents = []\<rparr>], index_size = 1\<rparr>, None)"
    by (simp add: short_path_def FTLPack_init_def u32_at_def pystr_of_def bytes_of_def
          load_eval)
  have c: "load FTLPack_init cut_second_record
       = (\<lparr>index = [\<lparr>path = pystr_of ''a'', contents = bytes_of ''x''\<rparr>], index_size = 2\<rparr>,
          Some StructError)"
    by (simp add: cut_second_record_def FTLPack_init_def pystr_of_def bytes_of_def load_eval)
  from a b c show ?thesis
    by blast
qed

text \<open>Conversely, \<open>load\<close> raises \<open>struct.error\<close> only for such a stream.\<close>

lemma unpack_L_Inr_iff: "(\<exists>v. unpack_L bs = Inr v) \<longleftrightarrow> length bs = 4"
  by (auto simp: unpack_L_def split: list.splits)

lemma unpack_LL_Inr_iff: "(\<exists>v. unpack_LL bs = Inr v) \<longleftrightarrow> length bs = 8"
proof
  assume "\<exists>v. unpack_LL bs = Inr v"
  then show "length bs = 8"
    by (auto dest: unpack_LL_length)
next
  assume l: "length bs = 8"
  then have "length (take 4 bs) = 4" "length (drop 4 bs) = 4"
    by simp_all
  then obtain x y where "unpack_L (take 4 bs) = Inr x" "unpack_L (drop 4 bs) = Inr y"
    using unpack_L_Inr_iff by blast
  with l show "\<exists>v. unpack_LL bs = Inr v"
    by (simp add: unpack_LL_def)
qed

lemma load_slot_struct_error:
  assumes "load_slot k self f = (sf, Some StructError)"
  shows "slot_cut (data f) k"
proof (cases "unpack_L (take 4 (drop k (data f)))")
  case (Inl e)
  then show ?thesis
    by (simp add: slot_cut_def u32_at_def)
next
  case (Inr off)
  show ?thesis
  proof (cases "0 < off \<and> length (data f) < off + 8")
    case True
    with Inr show ?thesis
      by (simp add: slot_cut_def u32_at_def)
  next
    case False
    have "off = 0 \<or> length (take 8 (drop off (data f))) = 8"
      using False by auto
    then have "off = 0 \<or> (\<exists>v. unpack_LL (take 8 (drop off (data f))) = Inr v)"
      using unpack_LL_Inr_iff by blast
    with assms Inr show ?thesis
      by (auto simp: load_slot_def read_def seek_def Let_def
               split: sum.splits prod.splits option.splits if_splits)
  qed
qed

lemma load_loop_struct_error:
  "load_loop ks self f = (sf, Some StructError) \<Longrightarrow> list_ex (slot_cut (data f)) ks"
proof (induction ks arbitrary: self f)
  case Nil
  then show ?case by simp
next
  case (Cons k ks)
  obtain s1 f1 r where step: "load_slot k self f = ((s1, f1), r)"
    by (metis prod.exhaust)
  show ?case
  proof (cases r)
    case None
    with step Cons.prems have "load_loop ks s1 f1 = (sf, Some StructError)"
      by simp
    from Cons.IH [OF this] load_slot_data [OF step] show ?thesis
      by simp
  next
    case (Some e)
    with step Cons.prems have "e = StructError"
      by simp
    with Some step load_slot_struct_error [of k self f "(s1, f1)"] show ?thesis
      by simp
  qed
qed

lemma load_struct_error:
  assumes "snd (load self bs) = Some StructError"
  shows "fixed_field_cut bs"
proof (cases "unpack_L (take 4 bs)")
  case (Inl e)
  then show ?thesis
    by (simp add: fixed_field_cut_def u32_at_def)
next
  case (Inr n)
  define self1 where "self1 = self\<lparr>index := [], index_size := int n\<rparr>"
  define f1 where "f1 = \<lparr>data = bs, pos = length (take 4 bs)\<rparr>"
  from assms Inr have "snd (load_loop (index_offsets n) self1 f1) = Some StructError"
    by (auto simp: load_def read_def Let_def self1_def f1_def
             split: prod.splits option.splits)
  then obtain sf where "load_loop (index_offsets n) self1 f1 = (sf, Some StructError)"
    by (metis prod.collapse)
  from load_loop_struct_error [OF this] Inr show ?thesis
    by (simp add: fixed_field_cut_def u32_at_def f1_def)
qed

section \<open>Lengths that do not fit 32 bits\<close>

lemma write_entries_big:
  "\<exists>e \<in> set es. 2 ^ 32 \<le> length (contents e) \<or> 2 ^ 32 \<le> length (path e) \<Longrightarrow>
     snd (write_entries es f) = Some StructError
     \<or> (snd (write_entries es f) = Some UnicodeEncodeError
        \<and> (\<exists>e \<in> set es. encode (path e) = None))"
proof (induction es arbitrary: f)
  case Nil
  then show ?case by simp
next
  case (Cons entry es)
  show ?case
  proof (cases "pack_LL (int (length (contents entry))) (int (length (path entry)))")
    case (Inl e)
    then have "e = StructError" by (rule pack_LL_Inl)
    with Inl show ?thesis by simp
  next
    case (Inr h)
    then have small: "length (contents entry) < 2 ^ 32" "length (path entry) < 2 ^ 32"
      by (simp_all add: pack_LL_Inr)
    show ?thesis
    proof (cases "encode (path entry)")
      case None
      with Inr show ?thesis by simp
    next
      case (Some pb)
      from Cons.prems small
      have "\<exists>e \<in> set es. 2 ^ 32 \<le> length (contents e) \<or> 2 ^ 32 \<le> length (path e)"
        by auto
      from Cons.IH [OF this, of "f @ h @ pb @ contents entry"] Inr Some show ?thesis
        by auto
    qed
  qed
qed

lemma encode_replicate_E9:
  "encode (replicate n 0xE9) = Some (concat (replicate n [0xC3, 0xA9]))"
  by (induction n) (simp_all add: encode_cp_def)

lemma length_concat_replicate: "length (concat (replicate n xs)) = n * length xs"
  by (induction n) simp_all

text \<open>
  Claim C8, as amended.  Let an object have no more entries than its index size, and let
  one of its entries have \<open>2 ** 32\<close> or more content bytes, or a path of \<open>2 ** 32\<close> or
  more characters (its UTF-8 form is then at least as long).  Then \<open>save\<close> raises:
  \<open>struct.error\<close>, or \<open>UnicodeEncodeError\<close> when the path of some entry has no UTF-8
  form.  Nothing is said of a path of fewer characters whose UTF-8 form has \<open>2 ** 32\<close>
  or more bytes.
\<close>

theorem save_length_overflow:
  assumes "int (length (index self)) \<le> index_size self"
    and "\<exists>e \<in> set (index self). 2 ^ 32 \<le> length (contents e) \<or> 2 ^ 32 \<le> length (path e)"
  shows "snd (save self) = Some StructError
         \<or> (snd (save self) = Some UnicodeEncodeError
            \<and> (\<exists>e \<in> set (index self). encode (path e) = None))"
proof (cases "pack_L (index_size self)")
  case (Inl e)
  then have "e = StructError" by (rule pack_L_Inl)
  with Inl assms(1) show ?thesis
    by (simp add: save_def)
next
  case (Inr h)
  obtain f1 r1 where w: "write_offsets (index self) (4 + 4 * index_size self) h = (f1, r1)"
    by (metis prod.exhaust)
  show ?thesis
  proof (cases r1)
    case (Some e)
    with w have "e = StructError" by (auto dest: write_offsets_error)
    with Some w Inr assms(1) show ?thesis
      by (simp add: save_def)
  next
    case None
    let ?f2 = "f1 @ replicate (4 * nat (index_size self - int (length (index self)))) 0"
    have "snd (save self) = snd (write_entries (index self) ?f2)"
      using None w Inr assms(1) by (simp add: save_def Let_def split: prod.splits)
    with write_entries_big [OF assms(2), of ?f2] show ?thesis
      by simp
  qed
qed

theorem save_length_overflow_witness:
  "int (length (index big_file)) \<le> index_size big_file
   \<and> (\<exists>e \<in> set (index big_file). 2 ^ 32 \<le> length (contents e) \<or> 2 ^ 32 \<le> length (path e))
   \<and> snd (save big_file) = Some StructError"
proof -
  have a: "int (length (index big_file)) \<le> index_size big_file"
    by (simp add: big_file_def)
  have b: "\<exists>e \<in> set (index big_file). 2 ^ 32 \<le> length (contents e) \<or> 2 ^ 32 \<le> length (path e)"
    by (simp add: big_file_def)
  have c: "\<not> (\<exists>e \<in> set (index big_file). encode (path e) = None)"
    by (simp add: big_file_def pystr_of_def encode_cp_def)
  from save_length_overflow [OF a b] a b c show ?thesis
    by simp
qed

text \<open>
  The claim as it was stated fails in two ways.  When an entry whose path is a lone
  surrogate comes before an entry of \<open>2 ** 32\<close> content bytes, \<open>save\<close> raises
  \<open>UnicodeEncodeError\<close>, not \<open>struct.error\<close>.  A path of \<open>2 ** 31\<close> characters of two
  bytes each has \<open>2 ** 32\<close> bytes in UTF-8, and \<open>save\<close> raises nothing.
\<close>

theorem save_length_overflow_counterexample:
  "snd (save surrogate_then_big) = Some UnicodeEncodeError
   \<and> map_option length (encode (replicate (2 ^ 31) 0xE9)) = Some (2 ^ 32)
   \<and> snd (save long_path) = None"
proof (intro conjI)
  show "snd (save surrogate_then_big) = Some UnicodeEncodeError"
    by (simp add: surrogate_then_big_def pystr_of_def save_eval)
  show "map_option length (encode (replicate (2 ^ 31) 0xE9)) = Some (2 ^ 32)"
    by (simp add: encode_replicate_E9 length_concat_replicate)
  show "snd (save long_path) = None"
    by (simp add: long_path_def save_def pack_L_def pack_LL_def size_entry_def
          encode_replicate_E9)
qed

section \<open>Paths outside ASCII\<close>

lemma size_entry_utf8:
  assumes "encode (path e) = Some pb"
  shows "size_entry e = 8 + int (length pb) + int (length (contents e)) \<longleftrightarrow> is_ascii (path e)"
  using encode_length_eq_iff [OF assms] by (auto simp: size_entry_def)

text \<open>
  Claim C2 says that the size of an entry is 8 plus the number of bytes of the UTF-8 form
  of its path plus the number of its content bytes.  The property \<open>size\<close> adds the
  number of characters of the path instead: for the path \<open>U+20AC\<close> and two content
  bytes it is 11, while the UTF-8 form of the path has three bytes and the record 13.
\<close>

theorem size_counts_characters:
  "size_entry euro_entry = 11
   \<and> encode (path euro_entry) = Some [0xE2, 0x82, 0xAC]
   \<and> 8 + int (length [0xE2, 0x82, 0xAC :: byte]) + int (length (contents euro_entry)) = 13"
  by (simp add: euro_entry_def size_entry_def encode_cp_def)

text \<open>
  Claim C3 says that the path length field of a record holds the number of bytes of the
  UTF-8 form of the path.  \<open>save\<close> writes the number of characters instead: for the
  path \<open>U+00E9\<close> the field holds 1 and the two bytes \<open>C3 A9\<close> follow it.
\<close>

theorem path_length_field_counts_characters:
  "encode [0xE9] = Some [0xC3, 0xA9]
   \<and> save acute_pack
       = (Some ([1, 0, 0, 0] @ [8, 0, 0, 0] @ ([0, 0, 0, 0] @ [1, 0, 0, 0] @ [0xC3, 0xA9])), None)"
  by (simp add: acute_pack_def save_eval)

section \<open>Empty index slots\<close>

text \<open>
  The index table that a successful \<open>save\<close> has written: the offsets of the entries,
  none of them zero, and then zeros up to the index size.
\<close>

lemma u32_at_le32: "drop k bs = le32 v @ S \<Longrightarrow> v < 2 ^ 32 \<Longrightarrow> u32_at bs k = Some v"
  by (simp add: u32_at_def unpack_le32)

lemma u32_at_zero: "drop k bs = replicate 4 0 @ S \<Longrightarrow> u32_at bs k = Some 0"
proof -
  assume a: "drop k bs = replicate 4 0 @ S"
  have "replicate 4 (0::byte) = [0, 0, 0, 0]"
    by (simp add: numeral_eq_Suc)
  with a show ?thesis
    by (simp add: u32_at_def unpack_L_def)
qed

lemma slots_of_entries:
  "drop k bs = concat (map (\<lambda>v. le32 (nat v)) vs) @ S \<Longrightarrow>
   \<forall>v \<in> set vs. 0 \<le> v \<and> v < 2 ^ 32 \<Longrightarrow>
     map (u32_at bs) (map (\<lambda>i. k + 4 * i) [0..<length vs]) = map (\<lambda>v. Some (nat v)) vs"
proof (induction vs arbitrary: k)
  case Nil
  then show ?case by simp
next
  case (Cons v vs)
  have slot: "drop k bs = le32 (nat v) @ (concat (map (\<lambda>v. le32 (nat v)) vs) @ S)"
    using Cons.prems(1) by simp
  have v: "nat v < 2 ^ 32"
    using Cons.prems(2) by auto
  have "drop (k + 4) bs = concat (map (\<lambda>v. le32 (nat v)) vs) @ S"
    using drop_past [OF slot] by simp
  from Cons.IH [OF this] Cons.prems(2)
  have "map (u32_at bs) (map (\<lambda>i. k + 4 + 4 * i) [0..<length vs]) = map (\<lambda>v. Some (nat v)) vs"
    by simp
  with u32_at_le32 [OF slot v] show ?case
    unfolding length_Cons offsets_Suc by simp
qed

lemma slots_empty:
  "drop k bs = replicate (4 * m) 0 @ S \<Longrightarrow>
     map (u32_at bs) (map (\<lambda>i. k + 4 * i) [0..<m]) = replicate m (Some 0)"
proof (induction m arbitrary: k)
  case 0
  then show ?case by simp
next
  case (Suc m)
  have "replicate (4 * Suc m) (0::byte) = replicate 4 0 @ replicate (4 * m) 0"
    by (simp add: replicate_add [symmetric])
  with Suc.prems have slot: "drop k bs = replicate 4 0 @ (replicate (4 * m) 0 @ S)"
    by simp
  have "drop (k + 4) bs = replicate (4 * m) 0 @ S"
    using drop_past [OF slot] by simp
  from Suc.IH [OF this] u32_at_zero [OF slot] show ?case
    unfolding offsets_Suc by simp
qed

lemma slot_values_positive:
  "0 < off \<Longrightarrow> \<forall>v \<in> set (slot_values es off). 0 < v"
proof (induction es arbitrary: off)
  case Nil
  then show ?case by simp
next
  case (Cons e es)
  have "0 < off + size_entry e"
    using Cons.prems by (simp add: size_entry_def)
  from Cons.IH [OF this] Cons.prems show ?case
    by simp
qed

lemma save_index_table:
  assumes "save self = (Some bs, None)"
  shows "map (u32_at bs) (index_offsets (nat (index_size self)))
           = map (\<lambda>v. Some (nat v)) (slot_values (index self) (4 + 4 * index_size self))
             @ replicate (nat (index_size self) - length (index self)) (Some 0)"
    and "\<forall>v \<in> set (slot_values (index self) (4 + 4 * index_size self)). 0 < nat v"
proof -
  note ok = save_ok [OF assms]
  let ?N = "nat (index_size self)"
  let ?vs = "slot_values (index self) (4 + 4 * index_size self)"
  let ?Os = "concat (map (\<lambda>v. le32 (nat v)) ?vs)"
  let ?Z = "replicate (4 * (?N - length (index self))) (0::byte)"
  let ?R = "concat (map entry_record (index self))"
  have nN: "length (index self) \<le> ?N"
    using ok(1,3) by simp
  have bs: "bs = le32 ?N @ ?Os @ ?Z @ ?R"
    by (rule ok(4))
  have d0: "drop 0 bs = le32 ?N @ (?Os @ ?Z @ ?R)"
    using bs by simp
  have d1: "drop 4 bs = ?Os @ (?Z @ ?R)"
    using drop_past [OF d0] by simp
  have d2: "drop (4 + 4 * length (index self)) bs = ?Z @ ?R"
    using drop_past [OF d1] by (simp add: length_concat_le32)
  from slots_of_entries [OF d1 ok(5)] slots_empty [OF d2]
  show "map (u32_at bs) (index_offsets ?N)
           = map (\<lambda>v. Some (nat v)) ?vs @ replicate (?N - length (index self)) (Some 0)"
    unfolding index_offsets_split [OF nN] by simp
  have "0 < 4 + 4 * index_size self"
    using ok(1) by simp
  from slot_values_positive [OF this, of "index self"]
  show "\<forall>v \<in> set ?vs. 0 < nat v"
    by simp
qed

text \<open>
  A \<open>load\<close> that raises nothing has appended one entry for each slot that is not zero.
\<close>

lemma load_slot_count:
  assumes "load_slot k self f = ((s', f'), None)"
  shows "length (index s') = length (index self) + (if u32_at (data f) k = Some 0 then 0 else 1)"
  using assms
  by (auto simp: load_slot_def read_def seek_def Let_def u32_at_def
           split: sum.splits prod.splits option.splits if_splits)

lemma load_loop_count:
  "load_loop ks self f = ((s', f'), None) \<Longrightarrow>
     length (index s') = length (index self)
        + length (filter (\<lambda>k. u32_at (data f) k \<noteq> Some 0) ks)"
proof (induction ks arbitrary: self f)
  case Nil
  then show ?case by simp
next
  case (Cons k ks)
  from Cons.prems obtain s1 f1 where step: "load_slot k self f = ((s1, f1), None)"
    and rest: "load_loop ks s1 f1 = ((s', f'), None)"
    by (auto split: prod.splits option.splits)
  have d: "data f1 = data f"
    using step by (rule load_slot_data)
  from Cons.IH [OF rest] load_slot_count [OF step] d show ?case
    by simp
qed

lemma load_count:
  assumes "load self bs = (s', None)"
  shows "\<exists>n. u32_at bs 0 = Some n \<and> index_size s' = int n
           \<and> length (index s')
               = length (filter (\<lambda>k. u32_at bs k \<noteq> Some 0) (index_offsets n))"
proof -
  from assms obtain n where n: "unpack_L (take 4 bs) = Inr n"
    by (cases "unpack_L (take 4 bs)") (auto simp: load_def read_def Let_def)
  define self1 where "self1 = self\<lparr>index := [], index_size := int n\<rparr>"
  define f1 where "f1 = \<lparr>data = bs, pos = length (take 4 bs)\<rparr>"
  from assms n obtain f2 where loop: "load_loop (index_offsets n) self1 f1 = ((s', f2), None)"
    by (auto simp: load_def read_def Let_def self1_def f1_def
             split: prod.splits option.splits)
  have "index_size s1 = index_size s0" if "load_loop ks s0 f0 = ((s1, f3), r)" for ks s0 f0 s1 f3 r
    using that
    by (induction ks arbitrary: s0 f0)
       (auto simp: load_slot_def read_def seek_def Let_def
             split: sum.splits prod.splits option.splits if_splits)
  from this [OF loop] load_loop_count [OF loop] n show ?thesis
    by (simp add: u32_at_def self1_def f1_def)
qed

text \<open>
  Claim C6 says that \<open>load\<close> of what \<open>save\<close> wrote for fewer entries than index slots
  skips the empty slots and yields as many entries as were saved.  For the path
  \<open>U+00F1\<close> and three slots, \<open>save\<close> writes two empty slots after the slot of the entry,
  and \<open>load\<close> of the result raises \<open>UnicodeDecodeError\<close> at the first slot: it reads
  one path byte, the first half of the character.
\<close>

theorem empty_slots_load_fails:
  "save enye_pack = (Some enye_bytes, None)
   \<and> load FTLPack_init enye_bytes = (\<lparr>index = [], index_size = 3\<rparr>, Some UnicodeDecodeError)"
proof
  show "save enye_pack = (Some enye_bytes, None)"
    by (simp add: enye_pack_def enye_bytes_def save_eval replicate_8)
  show "load FTLPack_init enye_bytes = (\<lparr>index = [], index_size = 3\<rparr>, Some UnicodeDecodeError)"
    by (simp add: FTLPack_init_def enye_bytes_def load_eval upt_conv_Cons)
qed

end
